theory Spec2Isabelle
  imports Complex_Main "HOL-Library.Multiset" "HOL-Library.Sublist"
begin

text \<open>
  A shallow embedding of the gating engine of \<^verbatim>\<open>src/gating/contour_based_gating.py\<close>
  (class \<^verbatim>\<open>ContourBasedGating\<close>): the missing-frames message, the normalization, the peak
  detection, the fusion weights, the rescaling and the automatic gating, followed by the
  properties proved of them. Integers are Python's unbounded integers; signal values are
  floating-point numbers, modelled as described with the normalization below.
\<close>

section \<open>The missing-frames message: \<^verbatim>\<open>connect_consecutive_frames\<close>\<close>

text \<open>
  Python exceptions that the modelled functions of \<^verbatim>\<open>contour_based_gating.py\<close> can raise.
\<close>

datatype error = ValueError | IndexError

subsection \<open>Decimal rendering of integers (Python's \<^verbatim>\<open>str\<close>)\<close>

definition digit_char :: "nat \<Rightarrow> char" where
  "digit_char d = ''0123456789'' ! d"

fun str_nat :: "nat \<Rightarrow> string" where
  "str_nat n = (if n < 10 then [digit_char n] else str_nat (n div 10) @ [digit_char (n mod 10)])"

declare str_nat.simps [simp del]

definition str_int :: "int \<Rightarrow> string" where
  "str_int i = (if i < 0 then CHR ''-'' # str_nat (nat (- i)) else str_nat (nat i))"

text \<open>\<^verbatim>\<open>sep.join(parts)\<close>.\<close>

fun join :: "string \<Rightarrow> string list \<Rightarrow> string" where
  "join sep [] = []"
| "join sep [s] = s"
| "join sep (s # t # ts) = s @ sep @ join sep (t # ts)"

subsection \<open>\<^verbatim>\<open>connect_consecutive_frames\<close>\<close>

text \<open>
  The inner loop \<^verbatim>\<open>while j < len(nums) - 1 and nums[j + 1] - nums[j] == 1: j += 1\<close>,
  started at \<open>j\<close>; it returns the final \<open>j\<close>.
\<close>

function run_end :: "int list \<Rightarrow> nat \<Rightarrow> nat" where
  "run_end nums j =
     (if int j < int (length nums) - 1 \<and> nums ! (j + 1) - nums ! j = 1
      then run_end nums (j + 1) else j)"
  by pat_completeness auto
termination
  by (relation "measure (\<lambda>(nums, j). length nums - j)") auto

declare run_end.simps [simp del]

text \<open>
  The outer loop over \<open>i\<close>: each round appends one sublist to \<^verbatim>\<open>connected\<close> (here
  \<open>acc\<close>), the single element \<^verbatim>\<open>[nums[i]]\<close> when \<open>i = j\<close> and the slice \<^verbatim>\<open>nums[i : j + 1]\<close> otherwise,
  and continues at \<open>j + 1\<close>.
\<close>

function group_loop :: "int list \<Rightarrow> nat \<Rightarrow> int list list \<Rightarrow> int list list" where
  "group_loop nums i acc =
     (if i < length nums then
        (let j = run_end nums i in
         group_loop nums (j + 1)
           (acc @ [if i = j then [nums ! i] else take (j + 1 - i) (drop i nums)]))
      else acc)"
  by pat_completeness auto
termination
proof (relation "measure (\<lambda>(nums, i, acc). length nums - i)")
  show "wf (measure (\<lambda>(nums, i, acc). length nums - i))" by simp
next
  fix nums :: "int list" and i :: nat and acc :: "int list list" and j :: nat
  assume a: "i < length nums" "j = run_end nums i"
  have ge: "k \<le> run_end xs k" for xs :: "int list" and k :: nat
  proof (induction xs k rule: run_end.induct)
    case (1 xs k)
    show ?case
    proof (cases "int k < int (length xs) - 1 \<and> xs ! (k + 1) - xs ! k = 1")
      case True
      then have "run_end xs k = run_end xs (k + 1)"
        by (subst run_end.simps) simp
      with 1 True show ?thesis by simp
    next
      case False
      then have "run_end xs k = k"
        by (subst run_end.simps) auto
      then show ?thesis by simp
    qed
  qed
  show "((nums, j + 1, acc @ [if i = j then [nums ! i] else take (j + 1 - i) (drop i nums)]),
              (nums, i, acc)) \<in> measure (\<lambda>(nums, i, acc). length nums - i)"
    using a ge [of i nums] by simp
qed

declare group_loop.simps [simp del]

text \<open>
  The rendering of one sublist: \<^verbatim>\<open>f'{sublist[0]}-{sublist[-1]}' if len(sublist) > 2
  else ", ".join(map(str, sublist))\<close>. Every sublist the loop builds is non-empty.
\<close>

definition render_run :: "int list \<Rightarrow> string" where
  "render_run sub =
     (if length sub > 2 then str_int (hd sub) @ ''-'' @ str_int (last sub)
      else join '', '' (map str_int sub))"

definition connect_consecutive_frames :: "int list \<Rightarrow> string" where
  "connect_consecutive_frames missing =
     (let nums = sorted_list_of_set (set missing);
          runs = group_loop nums 0 []
      in join '', '' (map render_run runs))"

text \<open>
  The vocabulary of the property: a list of consecutive integers, the maximal runs of
  consecutive integers of a list, and a list of runs none of which continues into the next.
\<close>

fun consecutive :: "int list \<Rightarrow> bool" where
  "consecutive (x # y # ys) = (y = x + 1 \<and> consecutive (y # ys))"
| "consecutive _ = True"

fun runs_maximal :: "int list list \<Rightarrow> bool" where
  "runs_maximal (r # s # rs) = (last r + 1 \<noteq> hd s \<and> runs_maximal (s # rs))"
| "runs_maximal _ = True"

fun maximal_runs :: "int list \<Rightarrow> int list list" where
  "maximal_runs [] = []"
| "maximal_runs (x # xs) =
     (case maximal_runs xs of
        [] \<Rightarrow> [[x]]
      | r # rs \<Rightarrow> if hd r = x + 1 then (x # r) # rs else [x] # r # rs)"

section \<open>Signal conditioning: \<^verbatim>\<open>normalize_data\<close>\<close>

subsection \<open>Floating-point values\<close>

text \<open>
  The result of a floating-point operation is a finite number, an infinity or NaN. Finite
  values are real numbers and finite arithmetic is exact: rounding, overflow and the sign
  of a zero are not modelled (a zero divisor counts as \<open>+0\<close>). Division by zero and the
  arithmetic of infinities and NaN follow IEEE 754, as numpy does: they raise no exception.
\<close>

datatype fval = Fin real | PInf | NInf | NaN

fun is_finite :: "fval \<Rightarrow> bool" where
  "is_finite (Fin r) = True"
| "is_finite _ = False"

fun fadd :: "fval \<Rightarrow> fval \<Rightarrow> fval" where
  "fadd (Fin a) (Fin b) = Fin (a + b)"
| "fadd NaN _ = NaN"
| "fadd _ NaN = NaN"
| "fadd PInf NInf = NaN"
| "fadd NInf PInf = NaN"
| "fadd PInf _ = PInf"
| "fadd _ PInf = PInf"
| "fadd NInf _ = NInf"
| "fadd _ NInf = NInf"

fun fneg :: "fval \<Rightarrow> fval" where
  "fneg (Fin a) = Fin (- a)"
| "fneg PInf = NInf"
| "fneg NInf = PInf"
| "fneg NaN = NaN"

text \<open>The product of an infinity \<open>v\<close> and a finite number \<open>b\<close>.\<close>

definition inf_times :: "fval \<Rightarrow> real \<Rightarrow> fval" where
  "inf_times v b = (if b = 0 then NaN else if 0 < b then v else fneg v)"

fun fmul :: "fval \<Rightarrow> fval \<Rightarrow> fval" where
  "fmul (Fin a) (Fin b) = Fin (a * b)"
| "fmul NaN _ = NaN"
| "fmul _ NaN = NaN"
| "fmul PInf (Fin b) = inf_times PInf b"
| "fmul NInf (Fin b) = inf_times NInf b"
| "fmul (Fin a) PInf = inf_times PInf a"
| "fmul (Fin a) NInf = inf_times NInf a"
| "fmul PInf PInf = PInf"
| "fmul NInf NInf = PInf"
| "fmul PInf NInf = NInf"
| "fmul NInf PInf = NInf"

fun fdiv :: "fval \<Rightarrow> fval \<Rightarrow> fval" where
  "fdiv (Fin a) (Fin b) =
     (if b \<noteq> 0 then Fin (a / b) else if a = 0 then NaN else if 0 < a then PInf else NInf)"
| "fdiv NaN _ = NaN"
| "fdiv _ NaN = NaN"
| "fdiv (Fin a) PInf = Fin 0"
| "fdiv (Fin a) NInf = Fin 0"
| "fdiv PInf (Fin b) = (if 0 \<le> b then PInf else NInf)"
| "fdiv NInf (Fin b) = (if 0 \<le> b then NInf else PInf)"
| "fdiv PInf PInf = NaN"
| "fdiv PInf NInf = NaN"
| "fdiv NInf PInf = NaN"
| "fdiv NInf NInf = NaN"

text \<open>The comparison \<^verbatim>\<open><\<close>: false whenever a NaN is involved.\<close>

fun fless :: "fval \<Rightarrow> fval \<Rightarrow> bool" where
  "fless (Fin a) (Fin b) = (a < b)"
| "fless NaN _ = False"
| "fless _ NaN = False"
| "fless NInf NInf = False"
| "fless NInf _ = True"
| "fless _ NInf = False"
| "fless PInf _ = False"
| "fless _ PInf = True"

text \<open>\<^verbatim>\<open>np.sum\<close> and \<^verbatim>\<open>np.mean\<close> of floating-point values.\<close>

definition fsum :: "fval list \<Rightarrow> fval" where
  "fsum xs = foldl fadd (Fin 0) xs"

definition fmean :: "fval list \<Rightarrow> fval" where
  "fmean xs = fdiv (fsum xs) (Fin (real (length xs)))"

subsection \<open>\<^verbatim>\<open>normalize_data\<close>\<close>


section \<open>Peak detection: \<^verbatim>\<open>identify_extrema\<close>\<close>

text \<open>
  \<^verbatim>\<open>identify_extrema\<close> first replaces NaN and the infinities of its input by \<open>0\<close>
  (\<^verbatim>\<open>np.nan_to_num\<close>), so the peak detection itself works on finite values, real numbers
  in exact arithmetic. Peak positions are array indices, natural numbers.

  It then calls two library routines, \<^verbatim>\<open>np.percentile\<close> and
  \<^verbatim>\<open>scipy.signal.find_peaks\<close> with the arguments \<^verbatim>\<open>height\<close> and \<^verbatim>\<open>distance\<close>. They are
  modelled here after their implementations, restricted to the arguments the call uses.
\<close>

text \<open>\<^verbatim>\<open>np.nan_to_num(signal, nan=0.0, posinf=0.0, neginf=0.0)\<close>.\<close>

fun finite_or_zero :: "fval \<Rightarrow> real" where
  "finite_or_zero (Fin r) = r"
| "finite_or_zero _ = 0"

definition nan_to_num :: "fval list \<Rightarrow> real list" where
  "nan_to_num signal = map finite_or_zero signal"

subsection \<open>\<^verbatim>\<open>np.percentile\<close>, linear interpolation\<close>

text \<open>
  The percentile \<open>q\<close> of \<open>n\<close> values sits at the virtual index \<open>(n - 1) * q / 100\<close> of the
  sorted values and is interpolated linearly between its two neighbours. A percentile outside
  \<open>[0, 100]\<close> is a \<^verbatim>\<open>ValueError\<close>; the empty signal has no percentile (an error in the
  model; the gating pipeline never reaches this point with an empty signal, which the
  band-pass filter rejects before).
\<close>

definition percentile :: "real list \<Rightarrow> real \<Rightarrow> error + real" where
  "percentile signal q =
     (if q < 0 \<or> 100 < q then Inl ValueError
      else if signal = [] then Inl IndexError
      else
        (let arr = sort signal;
             n = length signal;
             virtual_index = real (n - 1) * (q / 100);
             previous_index = nat \<lfloor>virtual_index\<rfloor>;
             next_index = min (previous_index + 1) (n - 1);
             gamma = virtual_index - real previous_index
         in Inr (arr ! previous_index + (arr ! next_index - arr ! previous_index) * gamma)))"

subsection \<open>\<^verbatim>\<open>_local_maxima_1d\<close>\<close>

text \<open>
  The inner loop \<^verbatim>\<open>while i_ahead < i_max and x[i_ahead] == x[i]: i_ahead += 1\<close> with
  \<^verbatim>\<open>i_max = x.shape[0] - 1\<close>; it returns the final \<open>i_ahead\<close>.
\<close>

function plateau_end :: "real list \<Rightarrow> nat \<Rightarrow> nat \<Rightarrow> nat" where
  "plateau_end x i i_ahead =
     (if int i_ahead < int (length x) - 1 \<and> x ! i_ahead = x ! i
      then plateau_end x i (i_ahead + 1) else i_ahead)"
  by pat_completeness auto
termination
  by (relation "measure (\<lambda>(x, i, i_ahead). length x - i_ahead)") auto

declare plateau_end.simps [simp del]

text \<open>
  The outer loop, started at \<open>i = 1\<close>: a rising edge at \<open>i\<close> opens a plateau, which is a
  peak when the signal falls after it; the peak is recorded at the middle of the plateau
  and the scan continues behind it.
\<close>

function local_maxima_loop :: "real list \<Rightarrow> nat \<Rightarrow> nat list \<Rightarrow> nat list" where
  "local_maxima_loop x i midpoints =
     (if int i < int (length x) - 1 then
        (if x ! (i - 1) < x ! i then
           (let i_ahead = plateau_end x i (i + 1) in
            if x ! i_ahead < x ! i
            then local_maxima_loop x (i_ahead + 1) (midpoints @ [(i + (i_ahead - 1)) div 2])
            else local_maxima_loop x (i + 1) midpoints)
         else local_maxima_loop x (i + 1) midpoints)
      else midpoints)"
  by pat_completeness auto
termination
proof (relation "measure (\<lambda>(x, i, midpoints). length x - i)")
  show "wf (measure (\<lambda>(x, i, midpoints). length x - i))" by simp
next
  fix x :: "real list" and i :: nat and midpoints :: "nat list" and i_ahead :: nat
  assume a: "int i < int (length x) - 1" "i_ahead = plateau_end x i (i + 1)"
  have ge: "k \<le> plateau_end xs j k" for xs :: "real list" and j k :: nat
  proof (induction xs j k rule: plateau_end.induct)
    case (1 xs j k)
    show ?case
    proof (cases "int k < int (length xs) - 1 \<and> xs ! k = xs ! j")
      case True
      then have "plateau_end xs j k = plateau_end xs j (k + 1)"
        by (subst plateau_end.simps) simp
      with 1 True show ?thesis by simp
    next
      case False
      then have "plateau_end xs j k = k"
        by (subst plateau_end.simps) auto
      then show ?thesis by simp
    qed
  qed
  show "((x, i_ahead + 1, midpoints @ [(i + (i_ahead - 1)) div 2]), (x, i, midpoints))
      \<in> measure (\<lambda>(x, i, midpoints). length x - i)"
    using a ge [of "i + 1" x i] by simp
qed auto

declare local_maxima_loop.simps [simp del]

definition local_maxima_1d :: "real list \<Rightarrow> nat list" where
  "local_maxima_1d x = local_maxima_loop x 1 []"

subsection \<open>\<^verbatim>\<open>_select_by_peak_distance\<close>\<close>

text \<open>
  \<^verbatim>\<open>np.argsort(priority)\<close>: the positions in ascending order of priority. Equal priorities
  are taken in ascending position (a stable sort; numpy's default sort leaves the order
  of ties open).
\<close>

definition argsort :: "real list \<Rightarrow> nat list" where
  "argsort priority = map snd (sort_key fst (zip priority [0..<length priority]))"

text \<open>
  The two inner loops clear the \<open>keep\<close> flag of the peaks less than \<open>distance\<close> away from
  peak \<open>j\<close>, walking left from \<open>j - 1\<close> (the third argument is \<open>k + 1\<close>, so the walk ends
  at \<open>0\<close>) and right from \<open>j + 1\<close>, each until the first peak that is far enough.
\<close>

fun clear_left :: "nat list \<Rightarrow> int \<Rightarrow> nat \<Rightarrow> nat \<Rightarrow> bool list \<Rightarrow> bool list" where
  "clear_left peaks distance j 0 keep = keep"
| "clear_left peaks distance j (Suc k) keep =
     (if int (peaks ! j) - int (peaks ! k) < distance
      then clear_left peaks distance j k (keep[k := False]) else keep)"

function clear_right :: "nat list \<Rightarrow> int \<Rightarrow> nat \<Rightarrow> nat \<Rightarrow> bool list \<Rightarrow> bool list" where
  "clear_right peaks distance j k keep =
     (if k < length peaks \<and> int (peaks ! k) - int (peaks ! j) < distance
      then clear_right peaks distance j (k + 1) (keep[k := False]) else keep)"
  by pat_completeness auto
termination
  by (relation "measure (\<lambda>(peaks, distance, j, k, keep). length peaks - k)") auto

declare clear_right.simps [simp del]

text \<open>
  The main loop visits the peaks from the highest priority down
  (\<^verbatim>\<open>for i in range(peaks_size - 1, -1, -1): j = priority_to_position[i]\<close>); the list
  argument is the visiting order. A peak already cleared is skipped.
\<close>

fun select_loop :: "nat list \<Rightarrow> int \<Rightarrow> nat list \<Rightarrow> bool list \<Rightarrow> bool list" where
  "select_loop peaks distance [] keep = keep"
| "select_loop peaks distance (j # js) keep =
     (if \<not> keep ! j then select_loop peaks distance js keep
      else select_loop peaks distance js
             (clear_right peaks distance j (j + 1) (clear_left peaks distance j j keep)))"

definition select_by_peak_distance :: "nat list \<Rightarrow> real list \<Rightarrow> int \<Rightarrow> bool list" where
  "select_by_peak_distance peaks priority distance =
     select_loop peaks distance (rev (argsort priority)) (replicate (length peaks) True)"

text \<open>Boolean-mask indexing \<^verbatim>\<open>peaks[keep]\<close>.\<close>

definition select_mask :: "'a list \<Rightarrow> bool list \<Rightarrow> 'a list" where
  "select_mask xs keep = map fst (filter snd (zip xs keep))"

subsection \<open>\<^verbatim>\<open>find_peaks(x, distance=..., height=...)\<close>\<close>

text \<open>
  The conditions are applied in the library's order: the height first, on all local maxima,
  then the distance, on the peaks that are high enough. The distance is an integer
  configuration value (the library rounds a fractional one up).
\<close>

definition find_peaks :: "real list \<Rightarrow> int \<Rightarrow> real \<Rightarrow> error + nat list" where
  "find_peaks x distance height =
     (if distance < 1 then Inl ValueError
      else
        (let peaks = local_maxima_1d x;
             peaks = filter (\<lambda>p. height \<le> x ! p) peaks;
             keep = select_by_peak_distance peaks (map (\<lambda>p. x ! p) peaks) distance
         in Inr (select_mask peaks keep)))"

subsection \<open>\<^verbatim>\<open>identify_extrema\<close>\<close>

text \<open>The configuration values the gating reads (\<^verbatim>\<open>main_window.config.gating\<close>).\<close>

record config =
  min_height_percentile :: real
  min_distance :: int
  auto_gating_threshold :: int
  both_extrema :: bool

text \<open>
  The minima are the peaks of the negated signal, under the same height threshold, which
  is a percentile of the signal itself (not of the negated signal).
\<close>

definition maxima_of :: "config \<Rightarrow> fval list \<Rightarrow> error + nat list" where
  "maxima_of cfg signal =
     (case percentile (nan_to_num signal) (min_height_percentile cfg) of
        Inl e \<Rightarrow> Inl e
      | Inr min_height \<Rightarrow> find_peaks (nan_to_num signal) (min_distance cfg) min_height)"

definition minima_of :: "config \<Rightarrow> fval list \<Rightarrow> error + nat list" where
  "minima_of cfg signal =
     (case percentile (nan_to_num signal) (min_height_percentile cfg) of
        Inl e \<Rightarrow> Inl e
      | Inr min_height \<Rightarrow>
          find_peaks (map uminus (nan_to_num signal)) (min_distance cfg) min_height)"

definition identify_extrema :: "config \<Rightarrow> fval list \<Rightarrow> error + (nat list \<times> nat list)" where
  "identify_extrema cfg signal0 =
     (let signal = nan_to_num signal0 in
      case percentile signal (min_height_percentile cfg) of
        Inl e \<Rightarrow> Inl e
      | Inr min_height \<Rightarrow>
          (case find_peaks signal (min_distance cfg) min_height of
             Inl e \<Rightarrow> Inl e
           | Inr maxima_indices \<Rightarrow>
               (case find_peaks (map uminus signal) (min_distance cfg) min_height of
                  Inl e \<Rightarrow> Inl e
                | Inr minima_indices \<Rightarrow>
                    Inr (sort (maxima_indices @ minima_indices), maxima_indices))))"

subsection \<open>Properties of index lists\<close>

text \<open>
  A strictly increasing list of indices, and a list whose consecutive indices are at
  least \<open>d\<close> apart.
\<close>

fun increasing :: "nat list \<Rightarrow> bool" where
  "increasing (a # b # xs) = (a < b \<and> increasing (b # xs))"
| "increasing _ = True"

fun spaced :: "int \<Rightarrow> nat list \<Rightarrow> bool" where
  "spaced d (a # b # xs) = (int a + d \<le> int b \<and> spaced d (b # xs))"
| "spaced d _ = True"

text \<open>
  A peak of the signal at index \<open>m\<close>: \<open>m\<close> lies on a plateau \<open>l .. r\<close> of equal values,
  strictly inside the signal, with a strictly smaller value on either side of it.
\<close>

definition peak_at :: "real list \<Rightarrow> nat \<Rightarrow> bool" where
  "peak_at x m \<longleftrightarrow>
     (\<exists>l r. l \<le> m \<and> m \<le> r \<and> 1 \<le> l \<and> r + 1 < length x \<and> x ! (l - 1) < x ! l
        \<and> (\<forall>k. l \<le> k \<and> k \<le> r \<longrightarrow> x ! k = x ! l) \<and> x ! (r + 1) < x ! l)"

text \<open>
  Peak \<open>k\<close> is another peak less than \<open>d\<close> away from peak \<open>j\<close>; and the invariant of the
  main loop of the distance selection: every visited peak that is kept has no kept peak
  near it.
\<close>

definition near :: "nat list \<Rightarrow> int \<Rightarrow> nat \<Rightarrow> nat \<Rightarrow> bool" where
  "near peaks d j k \<longleftrightarrow> k \<noteq> j \<and> \<bar>int (peaks ! k) - int (peaks ! j)\<bar> < d"

definition settled :: "nat list \<Rightarrow> int \<Rightarrow> nat set \<Rightarrow> bool list \<Rightarrow> bool" where
  "settled peaks d D keep \<longleftrightarrow>
     (\<forall>j \<in> D. j < length peaks \<and> keep ! j \<longrightarrow> (\<forall>k < length peaks. near peaks d j k \<longrightarrow> \<not> keep ! k))"

section \<open>Automatic gating: \<^verbatim>\<open>automatic_gating\<close> and its call in \<^verbatim>\<open>plot_data\<close>\<close>

subsection \<open>Rounding the average of two indices\<close>

text \<open>
  \<^verbatim>\<open>round((maxima + closest_extrema) / 2)\<close>: the argument is half of the integer \<open>s\<close>, and
  \<^verbatim>\<open>round\<close> rounds a tie to the even neighbour.
\<close>

definition round_half :: "int \<Rightarrow> int" where
  "round_half s =
     (if even s then s div 2
      else (let k = s div 2 in if even k then k else k + 1))"

subsection \<open>The matching loop\<close>

text \<open>
  One round per maxima index, in order. \<open>gated_indices\<close> grows at its end;
  \<^verbatim>\<open>extrema_indices.remove\<close> deletes the first occurrence of the chosen value.
\<close>

fun gating_loop :: "int \<Rightarrow> int list \<Rightarrow> int list \<Rightarrow> int list \<Rightarrow> int list \<times> int list" where
  "gating_loop threshold [] extrema_indices gated_indices = (gated_indices, extrema_indices)"
| "gating_loop threshold (maxima # rest) extrema_indices gated_indices =
     (let close_extrema = filter (\<lambda>extrema. \<bar>maxima - extrema\<bar> \<le> threshold) extrema_indices in
      if close_extrema \<noteq> [] then
        (let closest_extrema = hd close_extrema in
         gating_loop threshold rest (remove1 closest_extrema extrema_indices)
           (gated_indices @ [round_half (maxima + closest_extrema)]))
      else gating_loop threshold rest extrema_indices gated_indices)"

text \<open>
  The same matching in the words of the specification: each maxima index, in order, takes
  the first remaining extrema index within the threshold, if there is one, and that
  extrema index leaves the pool. The result lists the matched pairs.
\<close>

fun greedy_pairs :: "int \<Rightarrow> int list \<Rightarrow> int list \<Rightarrow> (int \<times> int) list" where
  "greedy_pairs threshold [] pool = []"
| "greedy_pairs threshold (m # ms) pool =
     (case find (\<lambda>e. \<bar>m - e\<bar> \<le> threshold) pool of
        None \<Rightarrow> greedy_pairs threshold ms pool
      | Some e \<Rightarrow> (m, e) # greedy_pairs threshold ms (remove1 e pool))"

subsection \<open>Splitting by parity and summing the lumen area\<close>

text \<open>The slice \<^verbatim>\<open>xs[::2]\<close>; \<^verbatim>\<open>xs[1::2]\<close> is the same slice of \<^verbatim>\<open>xs[1:]\<close>, the tail.\<close>

fun every_second :: "'a list \<Rightarrow> 'a list" where
  "every_second [] = []"
| "every_second [x] = [x]"
| "every_second (x # y # xs) = x # every_second xs"

text \<open>
  The report table, reduced to the two columns the gating reads: one row per frame with
  its \<^verbatim>\<open>frame\<close> number and its \<^verbatim>\<open>lumen_area\<close>. The lookup
  \<^verbatim>\<open>report_data.loc[report_data['frame'] == frame, 'lumen_area'].values[0]\<close> takes the first
  row of that frame and raises \<^verbatim>\<open>IndexError\<close> when there is none.
\<close>

type_synonym report = "(int \<times> real) list"

definition lumen_area :: "report \<Rightarrow> int \<Rightarrow> error + real" where
  "lumen_area report_data frame =
     (case map_of report_data frame of None \<Rightarrow> Inl IndexError | Some a \<Rightarrow> Inr a)"

text \<open>The list comprehension: the areas of the frames, or the first failing lookup.\<close>

fun lumen_areas :: "report \<Rightarrow> int list \<Rightarrow> error + real list" where
  "lumen_areas report_data [] = Inr []"
| "lumen_areas report_data (frame # frames) =
     (case lumen_area report_data frame of
        Inl e \<Rightarrow> Inl e
      | Inr a \<Rightarrow>
          (case lumen_areas report_data frames of
             Inl e \<Rightarrow> Inl e
           | Inr as \<Rightarrow> Inr (a # as)))"

text \<open>Python's \<^verbatim>\<open>sum\<close>: from \<open>0\<close>, adding from the left.\<close>

definition py_sum :: "real list \<Rightarrow> real" where
  "py_sum xs = foldl (+) 0 xs"

subsection \<open>The session state\<close>

text \<open>
  The fields of \<^verbatim>\<open>main_window\<close> that the gating writes, and the lines the gating logs
  (\<^verbatim>\<open>logger.info\<close>).
\<close>

text \<open>
  Modelled from the spec: the type of \<^verbatim>\<open>main_window.data['phases']\<close>, which is created
  outside the files at hand. The specification calls it a per-frame phase label map, so it
  is a map from frame indices to labels here, and stamping a frame is a map update.
\<close>

record session =
  gated_frames_dia :: "int list"
  gated_frames_sys :: "int list"
  phases :: "int \<rightharpoonup> string"
  logged :: "string list"

text \<open>\<^verbatim>\<open>for frame in frames: phases[frame] = label\<close>.\<close>

fun stamp :: "string \<Rightarrow> int list \<Rightarrow> (int \<rightharpoonup> string) \<Rightarrow> (int \<rightharpoonup> string)" where
  "stamp label [] ph = ph"
| "stamp label (frame # frames) ph = stamp label frames (ph(frame \<mapsto> label))"

subsection \<open>\<^verbatim>\<open>automatic_gating\<close>\<close>

text \<open>
  The body after peak detection (from \<^verbatim>\<open>gated_indices = []\<close> on), given the two index
  lists. A failing lookup raises before any field is written.
\<close>

definition gate_indices ::
  "config \<Rightarrow> report \<Rightarrow> int list \<Rightarrow> int list \<Rightarrow> session \<Rightarrow> error + session" where
  "gate_indices cfg report_data maxima_indices extrema_indices st =
     (let gated_indices = fst (gating_loop (auto_gating_threshold cfg) maxima_indices extrema_indices []);
          first_half = every_second gated_indices;
          second_half = every_second (tl gated_indices)
      in case lumen_areas report_data first_half of
           Inl e \<Rightarrow> Inl e
         | Inr areas_first \<Rightarrow>
             (case lumen_areas report_data second_half of
                Inl e \<Rightarrow> Inl e
              | Inr areas_second \<Rightarrow>
                  (let sum_first_half = py_sum areas_first;
                       sum_second_half = py_sum areas_second;
                       dia = (if sum_first_half > sum_second_half then first_half else second_half);
                       sys = (if sum_first_half > sum_second_half then second_half else first_half)
                   in Inr (st\<lparr>gated_frames_dia := dia,
                               gated_frames_sys := sys,
                               phases := stamp ''S'' sys (stamp ''D'' dia (phases st))\<rparr>))))"

text \<open>
  Peak detection on the two composite signals. The first component of
  \<^verbatim>\<open>identify_extrema\<close> is all extrema, the second the maxima only; the extrema signal always
  contributes all its extrema. The detected indices enter the matching as integers.
\<close>

definition automatic_gating ::
  "config \<Rightarrow> report \<Rightarrow> fval list \<Rightarrow> fval list \<Rightarrow> session \<Rightarrow> error + session" where
  "automatic_gating cfg report_data maxima_signal extrema_signal st =
     (let st = st\<lparr>logged := logged st @
                   [if both_extrema cfg then ''Extrema peak detection according to config.yaml''
                    else ''Maxima peak detection according to config.yaml'']\<rparr>
      in case identify_extrema cfg maxima_signal of
           Inl e \<Rightarrow> Inl e
         | Inr (all_indices, max_indices) \<Rightarrow>
             (case identify_extrema cfg extrema_signal of
                Inl e \<Rightarrow> Inl e
              | Inr (extrema_indices, _) \<Rightarrow>
                  gate_indices cfg report_data
                    (map int (if both_extrema cfg then all_indices else max_indices))
                    (map int extrema_indices) st))"

subsection \<open>The call in \<^verbatim>\<open>plot_data\<close>\<close>

text \<open>
  \<^verbatim>\<open>if not gated_frames_dia and not gated_frames_sys: self.automatic_gating(...)\<close>: the
  step of \<^verbatim>\<open>plot_data\<close> that may change the gating.
\<close>

definition plot_data_gating ::
  "config \<Rightarrow> report \<Rightarrow> fval list \<Rightarrow> fval list \<Rightarrow> session \<Rightarrow> error + session" where
  "plot_data_gating cfg report_data signal_maxima signal_extrema st =
     (if gated_frames_dia st = [] \<and> gated_frames_sys st = []
      then automatic_gating cfg report_data signal_maxima signal_extrema st
      else Inr st)"

section \<open>Signal fusion and scaling\<close>

subsection \<open>\<^verbatim>\<open>smooth_curve\<close>\<close>

text \<open>
  \<^verbatim>\<open>np.convolve(a, v, mode='same')\<close>. Entry \<open>k\<close> of the full convolution is the sum of the
  products \<open>a[j] * v[k - j]\<close>; the mode \<^verbatim>\<open>same\<close> returns the centred part of it, as long
  as the longer argument (the library swaps the arguments when the second is longer). An
  empty argument is a \<^verbatim>\<open>ValueError\<close>.
\<close>

definition conv_full_at :: "fval list \<Rightarrow> fval list \<Rightarrow> nat \<Rightarrow> fval" where
  "conv_full_at a v k =
     fsum (map (\<lambda>j. fmul (a ! j) (v ! (k - j)))
             (filter (\<lambda>j. j \<le> k \<and> k - j < length v) [0..<length a]))"

definition np_convolve_same :: "fval list \<Rightarrow> fval list \<Rightarrow> error + fval list" where
  "np_convolve_same a v =
     (if a = [] \<or> v = [] then Inl ValueError
      else
        (let long = (if length a < length v then v else a);
             short = (if length a < length v then a else v)
         in Inr (map (\<lambda>i. conv_full_at long short (i + (length short - 1) div 2))
                   [0..<length long])))"

text \<open>
  \<^verbatim>\<open>np.convolve(signal, np.ones(window_size) / window_size, mode='same')\<close>: the centred
  moving average.
\<close>

definition smooth_curve :: "nat \<Rightarrow> fval list \<Rightarrow> error + fval list" where
  "smooth_curve window_size signal =
     np_convolve_same signal (replicate window_size (fdiv (Fin 1) (Fin (real window_size))))"

subsection \<open>The weights of \<^verbatim>\<open>combined_signal\<close>\<close>

text \<open>\<^verbatim>\<open>np.diff\<close>: the gaps between consecutive entries.\<close>

definition np_diff :: "int list \<Rightarrow> int list" where
  "np_diff xs = map (\<lambda>(a, b). b - a) (zip xs (tl xs))"

text \<open>
  \<^verbatim>\<open>np.std\<close>: the square root of the mean squared deviation from the mean; NaN for an
  empty array.
\<close>

definition np_std :: "real list \<Rightarrow> fval" where
  "np_std xs =
     (if xs = [] then NaN
      else
        (let n = real (length xs);
             mean = sum_list xs / n
         in Fin (sqrt (sum_list (map (\<lambda>x. (x - mean)\<^sup>2) xs) / n))))"

text \<open>\<^verbatim>\<open>variability.append(np.std(np.diff(extrema)))\<close> for each list of extrema indices.\<close>

definition variability_of :: "int list \<Rightarrow> fval" where
  "variability_of extrema = np_std (map real_of_int (np_diff extrema))"

text \<open>\<^verbatim>\<open>x ** -1\<close> on a numpy float: the reciprocal, infinite at zero.\<close>

definition reciprocal :: "fval \<Rightarrow> fval" where
  "reciprocal x = fdiv (Fin 1) x"

text \<open>\<^verbatim>\<open>weights = [(var / sum_variability) ** -1 for var in variability]\<close>.\<close>

definition weights_of :: "fval list \<Rightarrow> fval list" where
  "weights_of variability =
     (let sum_variability = fsum variability
      in map (\<lambda>var. reciprocal (fdiv var sum_variability)) variability)"

text \<open>
  \<^verbatim>\<open>combined_signal += weights[i] * signal\<close> on an accumulator of \<open>n\<close> entries: a signal of
  \<open>n\<close> entries is added entry by entry, a signal of one entry is broadcast, any other
  length is a \<^verbatim>\<open>ValueError\<close>.
\<close>

definition add_weighted :: "fval list \<Rightarrow> fval \<Rightarrow> fval list \<Rightarrow> error + fval list" where
  "add_weighted acc w signal =
     (if length signal = length acc
      then Inr (map (\<lambda>(a, x). fadd a (fmul w x)) (zip acc signal))
      else if length signal = 1
      then Inr (map (\<lambda>a. fadd a (fmul w (hd signal))) acc)
      else Inl ValueError)"

text \<open>
  The loop \<^verbatim>\<open>for i, signal in enumerate(signal_list)\<close>; \<^verbatim>\<open>weights[i]\<close> raises
  \<^verbatim>\<open>IndexError\<close> when there are fewer weights than signals.
\<close>

fun weighted_loop :: "fval list \<Rightarrow> fval list \<Rightarrow> fval list list \<Rightarrow> error + fval list" where
  "weighted_loop acc weights [] = Inr acc"
| "weighted_loop acc [] (signal # signals) = Inl IndexError"
| "weighted_loop acc (w # weights) (signal # signals) =
     (case add_weighted acc w signal of
        Inl e \<Rightarrow> Inl e
      | Inr acc' \<Rightarrow> weighted_loop acc' weights signals)"

text \<open>
  The part of \<^verbatim>\<open>combined_signal\<close> from the variabilities to the weighted sum of the
  filtered signals, given the extrema indices found for each signal. The accumulator starts
  as \<^verbatim>\<open>np.zeros(len(signal_list[0]))\<close>.
\<close>

definition combine_weighted :: "int list list \<Rightarrow> fval list list \<Rightarrow> error + fval list" where
  "combine_weighted extrema_indices signal_list =
     (case signal_list of
        [] \<Rightarrow> Inl IndexError
      | first # _ \<Rightarrow>
          weighted_loop (replicate (length first) (Fin 0))
            (weights_of (map variability_of extrema_indices)) signal_list)"

subsection \<open>\<^verbatim>\<open>combined_signal\<close>\<close>

text \<open>
  The extrema of one signal of the list: the signal is smoothed, and the peak detection
  gives the maxima only or all extrema, as the flag says.
\<close>

definition extrema_of_signal :: "config \<Rightarrow> nat \<Rightarrow> bool \<Rightarrow> fval list \<Rightarrow> error + int list" where
  "extrema_of_signal cfg window_size maxima_only signal =
     (case smooth_curve window_size signal of
        Inl e \<Rightarrow> Inl e
      | Inr smoothed_signal \<Rightarrow>
          (case identify_extrema cfg smoothed_signal of
             Inl e \<Rightarrow> Inl e
           | Inr (extrema_indices, maxima_indices) \<Rightarrow>
               Inr (map int (if maxima_only then maxima_indices else extrema_indices))))"

fun extrema_of_signals ::
  "config \<Rightarrow> nat \<Rightarrow> bool \<Rightarrow> fval list list \<Rightarrow> error + int list list" where
  "extrema_of_signals cfg window_size maxima_only [] = Inr []"
| "extrema_of_signals cfg window_size maxima_only (signal # signals) =
     (case extrema_of_signal cfg window_size maxima_only signal of
        Inl e \<Rightarrow> Inl e
      | Inr extrema \<Rightarrow>
          (case extrema_of_signals cfg window_size maxima_only signals of
             Inl e \<Rightarrow> Inl e
           | Inr rest \<Rightarrow> Inr (extrema # rest)))"

text \<open>
  The normalized, unfiltered signals kept on the instance by \<^verbatim>\<open>prepare_data\<close>; the second
  weighted sum runs over two or three of them, chosen by the flag, with the same weights.
\<close>

record conditioned =
  correlation_nor :: "fval list"
  blurring_nor :: "fval list"
  shortest_distance_nor :: "fval list"
  vector_angle_nor :: "fval list"
  vector_length_nor :: "fval list"

definition combined_signal ::
  "config \<Rightarrow> nat \<Rightarrow> conditioned \<Rightarrow> fval list list \<Rightarrow> bool \<Rightarrow> error + (fval list \<times> fval list)" where
  "combined_signal cfg window_size nor signal_list maxima_only =
     (case extrema_of_signals cfg window_size maxima_only signal_list of
        Inl e \<Rightarrow> Inl e
      | Inr extrema_indices \<Rightarrow>
          (case combine_weighted extrema_indices signal_list of
             Inl e \<Rightarrow> Inl e
           | Inr combined \<Rightarrow>
               (case weighted_loop (replicate (length (hd signal_list)) (Fin 0))
                       (weights_of (map variability_of extrema_indices))
                       (if maxima_only then [correlation_nor nor, blurring_nor nor]
                        else [shortest_distance_nor nor, vector_angle_nor nor,
                              vector_length_nor nor]) of
                  Inl e \<Rightarrow> Inl e
                | Inr combined_nor \<Rightarrow> Inr (combined, combined_nor))))"

subsection \<open>The rescaling in \<^verbatim>\<open>plot_data\<close>\<close>

text \<open>
  \<^verbatim>\<open>factor_diff = mean_max_values / mean_extrema_values\<close>; then
  \<^verbatim>\<open>signal_extrema *= factor_diff\<close> if \<^verbatim>\<open>factor_diff < 1\<close>, and
  \<^verbatim>\<open>signal_maxima *= factor_diff\<close> otherwise. The result is the pair of the maxima signal
  and the extrema signal after the scaling.
\<close>

definition factor_diff :: "fval list \<Rightarrow> fval list \<Rightarrow> fval" where
  "factor_diff signal_maxima signal_extrema = fdiv (fmean signal_maxima) (fmean signal_extrema)"

definition scale_signals :: "fval list \<Rightarrow> fval list \<Rightarrow> fval list \<times> fval list" where
  "scale_signals signal_maxima signal_extrema =
     (let f = factor_diff signal_maxima signal_extrema
      in if fless f (Fin 1)
         then (signal_maxima, map (\<lambda>x. fmul x f) signal_extrema)
         else (map (\<lambda>x. fmul x f) signal_maxima, signal_extrema))"

section \<open>Properties of the missing-frames message\<close>

lemma run_end_step:
  "int j < int (length nums) - 1 \<Longrightarrow> nums ! (j + 1) - nums ! j = 1 \<Longrightarrow>
   run_end nums j = run_end nums (j + 1)"
  by (subst run_end.simps) simp

lemma run_end_stop:
  "\<not> (int j < int (length nums) - 1 \<and> nums ! (j + 1) - nums ! j = 1) \<Longrightarrow> run_end nums j = j"
  by (subst run_end.simps) auto

lemma run_end_ge: "j \<le> run_end nums j"
proof (induction nums j rule: run_end.induct)
  case (1 nums j)
  show ?case
  proof (cases "int j < int (length nums) - 1 \<and> nums ! (j + 1) - nums ! j = 1")
    case True
    then have "run_end nums j = run_end nums (j + 1)"
      by (simp add: run_end_step)
    with 1 True show ?thesis by simp
  next
    case False
    then show ?thesis by (simp add: run_end_stop)
  qed
qed

lemma run_end_lt: "j < length nums \<Longrightarrow> run_end nums j < length nums"
proof (induction nums j rule: run_end.induct)
  case (1 nums j)
  show ?case
  proof (cases "int j < int (length nums) - 1 \<and> nums ! (j + 1) - nums ! j = 1")
    case True
    then have "run_end nums j = run_end nums (j + 1)"
      by (simp add: run_end_step)
    moreover from True have "j + 1 < length nums" by simp
    ultimately show ?thesis using 1 True by simp
  next
    case False
    then show ?thesis using 1 by (simp add: run_end_stop)
  qed
qed

lemma maximal_runs_hd:
  "xs \<noteq> [] \<Longrightarrow> maximal_runs xs \<noteq> [] \<and> hd (maximal_runs xs) \<noteq> [] \<and> hd (hd (maximal_runs xs)) = hd xs"
  by (cases xs) (auto split: list.splits)

lemma maximal_runs_Nil_iff [simp]: "maximal_runs xs = [] \<longleftrightarrow> xs = []"
  using maximal_runs_hd [of xs] by (cases xs) auto

lemma maximal_runs_nonempty: "[] \<notin> set (maximal_runs xs)"
proof (induction xs)
  case Nil
  then show ?case by simp
next
  case (Cons x xs)
  then show ?case by (auto split: list.splits)
qed

lemma concat_maximal_runs: "concat (maximal_runs xs) = xs"
  by (induction xs) (auto split: list.splits)

lemma maximal_runs_consecutive: "r \<in> set (maximal_runs xs) \<Longrightarrow> consecutive r"
proof (induction xs arbitrary: r)
  case Nil
  then show ?case by simp
next
  case (Cons x xs)
  show ?case
  proof (cases "maximal_runs xs")
    case Nil
    with Cons.prems show ?thesis by simp
  next
    case (Cons q qs)
    have q: "q \<noteq> []" using maximal_runs_nonempty [of xs] Cons by auto
    then obtain y ys where qy: "q = y # ys" by (cases q) auto
    have cq: "consecutive q" using Cons.IH [of q] Cons by simp
    show ?thesis
      using Cons.prems Cons Cons.IH cq qy by (auto split: if_splits)
  qed
qed

lemma maximal_runs_maximal: "runs_maximal (maximal_runs xs)"
proof (induction xs)
  case Nil
  then show ?case by simp
next
  case (Cons x xs)
  show ?case
  proof (cases "maximal_runs xs")
    case Nil
    then show ?thesis by simp
  next
    case outer: (Cons q qs)
    have q: "q \<noteq> []" using maximal_runs_nonempty [of xs] outer by auto
    show ?thesis
    proof (cases qs)
      case Nil
      with outer Cons q show ?thesis by auto
    next
      case (Cons s ss)
      with outer Cons.IH q show ?thesis by auto
    qed
  qed
qed

lemma maximal_runs_drop:
  "i < length nums \<Longrightarrow>
   maximal_runs (drop i nums) =
     take (run_end nums i + 1 - i) (drop i nums) # maximal_runs (drop (run_end nums i + 1) nums)"
proof (induction nums i rule: run_end.induct)
  case (1 nums j)
  have dj: "drop j nums = nums ! j # drop (j + 1) nums"
    using "1.prems" by (simp add: Cons_nth_drop_Suc)
  show ?case
  proof (cases "int j < int (length nums) - 1 \<and> nums ! (j + 1) - nums ! j = 1")
    case True
    then have lt: "j + 1 < length nums" by simp
    have re: "run_end nums j = run_end nums (j + 1)"
      using True by (simp add: run_end_step)
    have ge: "j + 1 \<le> run_end nums (j + 1)" by (rule run_end_ge)
    have IH: "maximal_runs (drop (j + 1) nums) =
        take (run_end nums (j + 1) + 1 - (j + 1)) (drop (j + 1) nums)
        # maximal_runs (drop (run_end nums (j + 1) + 1) nums)"
      using "1.IH" True lt by simp
    have dj1: "drop (j + 1) nums = nums ! (j + 1) # drop (j + 2) nums"
      using lt by (simp add: Cons_nth_drop_Suc)
    have hdr: "hd (take (run_end nums (j + 1) + 1 - (j + 1)) (drop (j + 1) nums)) = nums ! (j + 1)"
      using ge by (subst dj1) (simp add: take_Cons')
    have tk: "take (run_end nums j + 1 - j) (drop j nums) =
        nums ! j # take (run_end nums (j + 1) + 1 - (j + 1)) (drop (j + 1) nums)"
      using ge re by (subst dj) (simp add: take_Cons' Suc_diff_le)
    have "maximal_runs (drop j nums) = maximal_runs (nums ! j # drop (j + 1) nums)"
      using dj by simp
    also have "\<dots> = (nums ! j # take (run_end nums (j + 1) + 1 - (j + 1)) (drop (j + 1) nums))
        # maximal_runs (drop (run_end nums (j + 1) + 1) nums)"
      using IH hdr True by simp
    finally show ?thesis using tk re by simp
  next
    case False
    then have re: "run_end nums j = j" by (simp add: run_end_stop)
    show ?thesis
    proof (cases "j + 1 < length nums")
      case True
      with False have ne: "nums ! (j + 1) \<noteq> nums ! j + 1" by auto
      have dj1: "drop (j + 1) nums \<noteq> []" using True by simp
      have "hd (hd (maximal_runs (drop (j + 1) nums))) = nums ! (j + 1)"
        using maximal_runs_hd [OF dj1] True by (simp add: hd_drop_conv_nth)
      moreover have "maximal_runs (drop (j + 1) nums) \<noteq> []" using dj1 by simp
      ultimately have "maximal_runs (nums ! j # drop (j + 1) nums) =
          [nums ! j] # maximal_runs (drop (j + 1) nums)"
        using ne by (auto split: list.splits)
      moreover have "take (j + 1 - j) (nums ! j # drop (j + 1) nums) = [nums ! j]" by simp
      ultimately show ?thesis using re dj by simp
    next
      case False
      then have "drop (j + 1) nums = []" by simp
      then have "maximal_runs (nums ! j # drop (j + 1) nums) =
          [nums ! j] # maximal_runs (drop (j + 1) nums)" by simp
      moreover have "take (j + 1 - j) (nums ! j # drop (j + 1) nums) = [nums ! j]" by simp
      ultimately show ?thesis using re dj by simp
    qed
  qed
qed

lemma group_loop_eq:
  "i \<le> length nums \<Longrightarrow> group_loop nums i acc = acc @ maximal_runs (drop i nums)"
proof (induction nums i acc rule: group_loop.induct)
  case (1 nums i acc)
  show ?case
  proof (cases "i < length nums")
    case True
    define j where "j = run_end nums i"
    have jl: "j < length nums" unfolding j_def using True by (rule run_end_lt)
    have ji: "i \<le> j" unfolding j_def by (rule run_end_ge)
    have single: "i = j \<Longrightarrow> [nums ! i] = take (j + 1 - i) (drop i nums)"
      using True by (simp add: take_Suc_conv_app_nth)
    have "group_loop nums i acc =
        group_loop nums (j + 1) (acc @ [if i = j then [nums ! i] else take (j + 1 - i) (drop i nums)])"
      using True by (subst group_loop.simps) (simp add: j_def Let_def)
    also have "\<dots> = (acc @ [if i = j then [nums ! i] else take (j + 1 - i) (drop i nums)])
        @ maximal_runs (drop (j + 1) nums)"
      using "1.IH" [OF True j_def] jl by simp
    also have "\<dots> = acc @ take (j + 1 - i) (drop i nums) # maximal_runs (drop (j + 1) nums)"
      using single by simp
    also have "\<dots> = acc @ maximal_runs (drop i nums)"
      using maximal_runs_drop [OF True] by (simp add: j_def)
    finally show ?thesis .
  next
    case False
    with "1.prems" show ?thesis by (subst group_loop.simps) simp
  qed
qed

lemma render_run_cases:
  "render_run r =
     (case r of
        [] \<Rightarrow> []
      | [x] \<Rightarrow> str_int x
      | [x, y] \<Rightarrow> str_int x @ '', '' @ str_int y
      | _ \<Rightarrow> str_int (hd r) @ ''-'' @ str_int (last r))"
  by (auto simp: render_run_def split: list.splits)

text \<open>
  Claim C6, as the code has it. For every list of missing frame numbers, the formatter
  sorts the distinct numbers, cuts them into the maximal runs of consecutive numbers
  (the runs are non-empty, consecutive, concatenate to the sorted numbers, and no run
  continues into the next), renders a run of three or more numbers as
  \<^verbatim>\<open>first-last\<close>, a run of one or two numbers as the numbers themselves separated by
  \<^verbatim>\<open>", "\<close>, and joins the rendered runs with \<^verbatim>\<open>", "\<close>.
\<close>

theorem connect_consecutive_frames_runs:
  "let nums = sorted_list_of_set (set missing); rs = group_loop nums 0 [] in
     connect_consecutive_frames missing = join '', '' (map render_run rs)
     \<and> rs = maximal_runs nums
     \<and> concat rs = nums
     \<and> (\<forall>r \<in> set rs. r \<noteq> [] \<and> consecutive r)
     \<and> runs_maximal rs
     \<and> (\<forall>r \<in> set rs. render_run r =
           (case r of
              [x] \<Rightarrow> str_int x
            | [x, y] \<Rightarrow> str_int x @ '', '' @ str_int y
            | _ \<Rightarrow> str_int (hd r) @ ''-'' @ str_int (last r)))"
proof -
  define nums where "nums = sorted_list_of_set (set missing)"
  define rs where "rs = group_loop nums 0 []"
  have eq: "rs = maximal_runs nums"
    unfolding rs_def using group_loop_eq [of 0 nums "[]"] by simp
  have a: "connect_consecutive_frames missing = join '', '' (map render_run rs)"
    by (simp add: connect_consecutive_frames_def nums_def rs_def Let_def)
  have b: "concat rs = nums"
    by (simp add: eq concat_maximal_runs)
  have c: "\<forall>r \<in> set rs. r \<noteq> [] \<and> consecutive r"
    using maximal_runs_nonempty [of nums] maximal_runs_consecutive [of _ nums]
    by (auto simp: eq)
  have d: "runs_maximal rs"
    by (simp add: eq maximal_runs_maximal)
  have e: "\<forall>r \<in> set rs. render_run r =
           (case r of
              [x] \<Rightarrow> str_int x
            | [x, y] \<Rightarrow> str_int x @ '', '' @ str_int y
            | _ \<Rightarrow> str_int (hd r) @ ''-'' @ str_int (last r))"
  proof
    fix r assume "r \<in> set rs"
    with c have "r \<noteq> []" by blast
    then show "render_run r =
           (case r of
              [x] \<Rightarrow> str_int x
            | [x, y] \<Rightarrow> str_int x @ '', '' @ str_int y
            | _ \<Rightarrow> str_int (hd r) @ ''-'' @ str_int (last r))"
      by (subst render_run_cases) (simp split: list.splits)
  qed
  from a eq b c d e show ?thesis
    unfolding Let_def nums_def [symmetric] rs_def [symmetric] by blast
qed

theorem connect_consecutive_frames_runs_witness:
  "group_loop [13, 14, 16, 20, 21, 22] 0 [] = [[13, 14], [16], [20, 21, 22]]
   \<and> concat (group_loop [13, 14, 16, 20, 21, 22] 0 []) = [13, 14, 16, 20, 21, 22]
   \<and> connect_consecutive_frames [21, 13, 14, 16, 20, 22, 14] = ''13, 14, 16, 20-22''"
proof -
  have s: "sorted_list_of_set (set [21, 13, 14, 16, 20, 22, 14 :: int]) = [13, 14, 16, 20, 21, 22]"
    by code_simp
  have m: "maximal_runs [13, 14, 16, 20, 21, 22] = [[13, 14], [16], [20, 21, 22]]"
    by simp
  have c: "join '', '' (map render_run [[13, 14], [16], [20, 21, 22]]) = ''13, 14, 16, 20-22''"
    by code_simp
  have "connect_consecutive_frames [21, 13, 14, 16, 20, 22, 14] =
          join '', '' (map render_run (group_loop [13, 14, 16, 20, 21, 22] 0 []))
        \<and> group_loop [13, 14, 16, 20, 21, 22] 0 [] = maximal_runs [13, 14, 16, 20, 21, 22]
        \<and> concat (group_loop [13, 14, 16, 20, 21, 22] 0 []) = [13, 14, 16, 20, 21, 22]"
    using connect_consecutive_frames_runs [of "[21, 13, 14, 16, 20, 22, 14]"]
    unfolding Let_def s by blast
  then show ?thesis
    unfolding m using c by simp
qed

text \<open>
  Claim C6 as stated fails for a run of exactly two numbers: the guard
  \<^verbatim>\<open>len(sublist) > 2\<close> sends it to the \<^verbatim>\<open>", ".join\<close> branch, so the
  missing-frame list \<^verbatim>\<open>[13, 14, 16]\<close> renders as \<^verbatim>\<open>"13, 14, 16"\<close> and not as
  \<^verbatim>\<open>"13-14, 16"\<close>.
\<close>

theorem connect_consecutive_frames_pair_counterexample:
  "connect_consecutive_frames [13, 14, 16] = ''13, 14, 16''
   \<and> connect_consecutive_frames [13, 14, 16] \<noteq> ''13-14, 16''"
  by code_simp

section \<open>Properties of the normalization\<close>

lemma shifted_nonneg:
  "data \<noteq> [] \<Longrightarrow> d \<in> set (map (\<lambda>x. x - Min (set data)) data) \<Longrightarrow> 0 \<le> (d :: real)"
  by auto











section \<open>Properties of the peak detection\<close>

lemma plateau_end_step:
  "int i_ahead < int (length x) - 1 \<Longrightarrow> x ! i_ahead = x ! i \<Longrightarrow>
   plateau_end x i i_ahead = plateau_end x i (i_ahead + 1)"
  by (subst plateau_end.simps) simp

lemma plateau_end_stop:
  "\<not> (int i_ahead < int (length x) - 1 \<and> x ! i_ahead = x ! i) \<Longrightarrow>
   plateau_end x i i_ahead = i_ahead"
  by (subst plateau_end.simps) auto

lemma plateau_end_ge: "i_ahead \<le> plateau_end x i i_ahead"
proof (induction x i i_ahead rule: plateau_end.induct)
  case (1 x i i_ahead)
  show ?case
  proof (cases "int i_ahead < int (length x) - 1 \<and> x ! i_ahead = x ! i")
    case True
    then have "plateau_end x i i_ahead = plateau_end x i (i_ahead + 1)"
      by (simp add: plateau_end_step)
    with 1 True show ?thesis by simp
  next
    case False
    then show ?thesis by (simp add: plateau_end_stop)
  qed
qed

lemma plateau_end_flat:
  "i < j \<Longrightarrow> j < length x \<Longrightarrow> \<forall>k. i \<le> k \<and> k < j \<longrightarrow> x ! k = x ! i \<Longrightarrow>
   plateau_end x i j < length x \<and> (\<forall>k. i \<le> k \<and> k < plateau_end x i j \<longrightarrow> x ! k = x ! i)"
proof (induction x i j rule: plateau_end.induct)
  case (1 x i i_ahead)
  show ?case
  proof (cases "int i_ahead < int (length x) - 1 \<and> x ! i_ahead = x ! i")
    case True
    then have eq: "plateau_end x i i_ahead = plateau_end x i (i_ahead + 1)"
      by (simp add: plateau_end_step)
    have flat: "\<forall>k. i \<le> k \<and> k < i_ahead + 1 \<longrightarrow> x ! k = x ! i"
    proof (intro allI impI)
      fix k assume k: "i \<le> k \<and> k < i_ahead + 1"
      then have "k < i_ahead \<or> k = i_ahead" by linarith
      with True "1.prems"(3) k show "x ! k = x ! i" by blast
    qed
    have "i < i_ahead + 1" "i_ahead + 1 < length x" using True "1.prems"(1) by simp_all
    from "1.IH" [OF True this flat] show ?thesis unfolding eq .
  next
    case False
    then have stop: "plateau_end x i i_ahead = i_ahead" by (simp add: plateau_end_stop)
    show ?thesis unfolding stop using "1.prems"(2,3) by blast
  qed
qed

lemma lm_stop:
  "\<not> int i < int (length x) - 1 \<Longrightarrow> local_maxima_loop x i acc = acc"
  by (subst local_maxima_loop.simps) simp

lemma lm_flat:
  "int i < int (length x) - 1 \<Longrightarrow> \<not> x ! (i - 1) < x ! i \<Longrightarrow>
   local_maxima_loop x i acc = local_maxima_loop x (i + 1) acc"
  by (subst local_maxima_loop.simps) simp

lemma lm_nopeak:
  "int i < int (length x) - 1 \<Longrightarrow> x ! (i - 1) < x ! i \<Longrightarrow>
   \<not> x ! plateau_end x i (i + 1) < x ! i \<Longrightarrow>
   local_maxima_loop x i acc = local_maxima_loop x (i + 1) acc"
  by (subst local_maxima_loop.simps) (simp add: Let_def)

lemma lm_peak:
  "int i < int (length x) - 1 \<Longrightarrow> x ! (i - 1) < x ! i \<Longrightarrow>
   x ! plateau_end x i (i + 1) < x ! i \<Longrightarrow>
   local_maxima_loop x i acc =
     local_maxima_loop x (plateau_end x i (i + 1) + 1) (acc @ [(i + (plateau_end x i (i + 1) - 1)) div 2])"
  by (subst local_maxima_loop.simps) (simp add: Let_def)

lemma local_maxima_loop_acc:
  "local_maxima_loop x i acc = acc @ local_maxima_loop x i []"
proof (induction "length x - i" arbitrary: i acc rule: less_induct)
  case less
  show ?case
  proof (cases "int i < int (length x) - 1")
    case False
    then show ?thesis by (simp add: lm_stop)
  next
    case in_range: True
    then have d1: "length x - (i + 1) < length x - i" by linarith
    show ?thesis
    proof (cases "x ! (i - 1) < x ! i")
      case False
      have "local_maxima_loop x i acc = local_maxima_loop x (i + 1) acc"
        using in_range False by (rule lm_flat)
      also have "\<dots> = acc @ local_maxima_loop x (i + 1) []"
        using less [OF d1] .
      also have "local_maxima_loop x (i + 1) [] = local_maxima_loop x i []"
        using in_range False by (rule lm_flat [symmetric])
      finally show ?thesis .
    next
      case rising: True
      define e where "e = plateau_end x i (i + 1)"
      have ge: "i + 1 \<le> e" unfolding e_def by (rule plateau_end_ge)
      then have d2: "length x - (e + 1) < length x - i" using in_range by linarith
      show ?thesis
      proof (cases "x ! e < x ! i")
        case True
        have u: "\<And>acc. local_maxima_loop x i acc =
            local_maxima_loop x (e + 1) (acc @ [(i + (e - 1)) div 2])"
          unfolding e_def using in_range rising True [unfolded e_def] by (rule lm_peak)
        have "local_maxima_loop x i acc = (acc @ [(i + (e - 1)) div 2]) @ local_maxima_loop x (e + 1) []"
          unfolding u [of acc] using less [OF d2] .
        moreover have "local_maxima_loop x i [] = ([] @ [(i + (e - 1)) div 2]) @ local_maxima_loop x (e + 1) []"
          unfolding u [of "[]"] using less [OF d2] .
        ultimately show ?thesis by simp
      next
        case False
        have u: "\<And>acc. local_maxima_loop x i acc = local_maxima_loop x (i + 1) acc"
          using in_range rising False [unfolded e_def] by (rule lm_nopeak)
        have "local_maxima_loop x i acc = acc @ local_maxima_loop x (i + 1) []"
          unfolding u [of acc] using less [OF d1] .
        moreover have "local_maxima_loop x i [] = local_maxima_loop x (i + 1) []"
          by (rule u)
        ultimately show ?thesis by simp
      qed
    qed
  qed
qed

lemma local_maxima_loop_peaks:
  "1 \<le> i \<Longrightarrow>
   (\<forall>m \<in> set (local_maxima_loop x i []). i \<le> m \<and> peak_at x m)
   \<and> sorted_wrt (<) (local_maxima_loop x i [])"
proof (induction "length x - i" arbitrary: i rule: less_induct)
  case less
  show ?case
  proof (cases "int i < int (length x) - 1")
    case False
    then show ?thesis by (simp add: lm_stop)
  next
    case in_range: True
    then have d1: "length x - (i + 1) < length x - i" by linarith
    have next1: "(\<forall>m \<in> set (local_maxima_loop x (i + 1) []). i + 1 \<le> m \<and> peak_at x m)
        \<and> sorted_wrt (<) (local_maxima_loop x (i + 1) [])"
      using less(1) [OF d1] by simp
    show ?thesis
    proof (cases "x ! (i - 1) < x ! i")
      case False
      have "local_maxima_loop x i [] = local_maxima_loop x (i + 1) []"
        using in_range False by (rule lm_flat)
      with next1 show ?thesis by auto
    next
      case rising: True
      define e where "e = plateau_end x i (i + 1)"
      have ge: "i + 1 \<le> e" unfolding e_def by (rule plateau_end_ge)
      then have d2: "length x - (e + 1) < length x - i" using in_range by linarith
      show ?thesis
      proof (cases "x ! e < x ! i")
        case False
        have "local_maxima_loop x i [] = local_maxima_loop x (i + 1) []"
          using in_range rising False [unfolded e_def] by (rule lm_nopeak)
        with next1 show ?thesis by auto
      next
        case True
        define m where "m = (i + (e - 1)) div 2"
        have "local_maxima_loop x i [] = local_maxima_loop x (e + 1) ([] @ [m])"
          unfolding e_def m_def using in_range rising True [unfolded e_def] by (rule lm_peak)
        then have u: "local_maxima_loop x i [] = m # local_maxima_loop x (e + 1) []"
          using local_maxima_loop_acc [of x "e + 1" "[m]"] by simp
        have nexte: "(\<forall>k \<in> set (local_maxima_loop x (e + 1) []). e + 1 \<le> k \<and> peak_at x k)
            \<and> sorted_wrt (<) (local_maxima_loop x (e + 1) [])"
          using less(1) [OF d2] by simp
        have im: "i \<le> m" "m \<le> e - 1" using ge unfolding m_def by linarith+
        have "i < i + 1" "i + 1 < length x" using in_range by linarith+
        moreover have "\<forall>k. i \<le> k \<and> k < i + 1 \<longrightarrow> x ! k = x ! i"
        proof (intro allI impI)
          fix k assume "i \<le> k \<and> k < i + 1"
          then have "k = i" by linarith
          then show "x ! k = x ! i" by simp
        qed
        ultimately have pe: "e < length x \<and> (\<forall>k. i \<le> k \<and> k < e \<longrightarrow> x ! k = x ! i)"
          unfolding e_def by (rule plateau_end_flat)
        have pe1: "e < length x" using pe by (rule conjunct1)
        have e1: "e - 1 + 1 = e" using ge by linarith
        have flat: "\<forall>k. i \<le> k \<and> k \<le> e - 1 \<longrightarrow> x ! k = x ! i"
        proof (intro allI impI)
          fix k assume k: "i \<le> k \<and> k \<le> e - 1"
          then have "k < e" using ge by linarith
          with k pe show "x ! k = x ! i" by blast
        qed
        have "i \<le> m \<and> m \<le> e - 1 \<and> 1 \<le> i \<and> e - 1 + 1 < length x \<and> x ! (i - 1) < x ! i
            \<and> (\<forall>k. i \<le> k \<and> k \<le> e - 1 \<longrightarrow> x ! k = x ! i) \<and> x ! (e - 1 + 1) < x ! i"
          unfolding e1 using im less(2) pe1 rising flat True by blast
        then have "peak_at x m"
          unfolding peak_at_def by blast
        moreover have mk: "\<forall>k \<in> set (local_maxima_loop x (e + 1) []). m < k"
        proof
          fix k assume "k \<in> set (local_maxima_loop x (e + 1) [])"
          with nexte have "e + 1 \<le> k" by blast
          with im ge show "m < k" by linarith
        qed
        moreover have "\<forall>k \<in> set (local_maxima_loop x (e + 1) []). i \<le> k \<and> peak_at x k"
        proof
          fix k assume k: "k \<in> set (local_maxima_loop x (e + 1) [])"
          with nexte have "e + 1 \<le> k" "peak_at x k" by blast+
          with ge show "i \<le> k \<and> peak_at x k" by linarith
        qed
        ultimately show ?thesis unfolding u using nexte im(1) by simp
      qed
    qed
  qed
qed

lemma peak_not_trough:
  assumes "peak_at x m" "peak_at (map uminus x) m"
  shows False
proof -
  from assms(1) obtain l r where p: "l \<le> m" "m \<le> r" "1 \<le> l" "r + 1 < length x"
      "x ! (l - 1) < x ! l" "\<forall>k. l \<le> k \<and> k \<le> r \<longrightarrow> x ! k = x ! l"
    unfolding peak_at_def by blast
  from assms(2) obtain l' r' where q0: "l' \<le> m" "m \<le> r'" "1 \<le> l'" "r' + 1 < length x"
      "map uminus x ! (l' - 1) < map uminus x ! l'"
      "\<forall>k. l' \<le> k \<and> k \<le> r' \<longrightarrow> map uminus x ! k = map uminus x ! l'"
    unfolding peak_at_def length_map by blast
  have q5: "x ! l' < x ! (l' - 1)" using q0(1-5) by simp
  have q6: "\<And>k. l' \<le> k \<Longrightarrow> k \<le> r' \<Longrightarrow> x ! k = x ! l'"
  proof -
    fix k assume k: "l' \<le> k" "k \<le> r'"
    then have "map uminus x ! k = map uminus x ! l'" using q0(6) by blast
    moreover have "k < length x" "l' < length x" using k q0(4) by linarith+
    ultimately show "x ! k = x ! l'" by simp
  qed
  consider "l < l'" | "l' < l" | "l = l'" by linarith
  then show False
  proof cases
    case 1
    then have "l \<le> l' - 1" "l' - 1 \<le> r" "l \<le> l'" "l' \<le> r" using q0(1) p(2) by linarith+
    then have "x ! (l' - 1) = x ! l" "x ! l' = x ! l" using p(6) by blast+
    with q5 show False by simp
  next
    case 2
    then have "l' \<le> l - 1" "l - 1 \<le> r'" "l' \<le> l" "l \<le> r'" using p(1) q0(2) by linarith+
    then have "x ! (l - 1) = x ! l'" "x ! l = x ! l'" using q6 by blast+
    with p(5) show False by simp
  next
    case 3
    with p(5) q5 show False by simp
  qed
qed

lemma local_maxima_1d_sorted: "sorted_wrt (<) (local_maxima_1d x)"
  using local_maxima_loop_peaks [of 1 x] by (simp add: local_maxima_1d_def)

lemma local_maxima_1d_peak: "m \<in> set (local_maxima_1d x) \<Longrightarrow> peak_at x m"
  using local_maxima_loop_peaks [of 1 x] by (simp add: local_maxima_1d_def)

lemma maxima_minima_disjoint:
  "set (local_maxima_1d x) \<inter> set (local_maxima_1d (map uminus x)) = {}"
  using local_maxima_1d_peak peak_not_trough by blast

lemma clear_left_spec:
  "sorted_wrt (<) peaks \<Longrightarrow> j < length peaks \<Longrightarrow> c \<le> j \<Longrightarrow> length keep = length peaks \<Longrightarrow>
   length (clear_left peaks d j c keep) = length peaks
   \<and> (\<forall>k < length peaks. clear_left peaks d j c keep ! k =
         (keep ! k \<and> \<not> (k < c \<and> int (peaks ! j) - int (peaks ! k) < d)))"
proof (induction c arbitrary: keep)
  case 0
  then show ?case by simp
next
  case (Suc c)
  show ?case
  proof (cases "int (peaks ! j) - int (peaks ! c) < d")
    case True
    have IH: "length (clear_left peaks d j c (keep[c := False])) = length peaks
        \<and> (\<forall>k < length peaks. clear_left peaks d j c (keep[c := False]) ! k =
              ((keep[c := False]) ! k \<and> \<not> (k < c \<and> int (peaks ! j) - int (peaks ! k) < d)))"
      using Suc.IH [of "keep[c := False]"] Suc.prems by simp
    have "\<forall>k < length peaks. clear_left peaks d j c (keep[c := False]) ! k =
        (keep ! k \<and> \<not> (k < Suc c \<and> int (peaks ! j) - int (peaks ! k) < d))"
    proof (intro allI impI)
      fix k assume k: "k < length peaks"
      show "clear_left peaks d j c (keep[c := False]) ! k =
          (keep ! k \<and> \<not> (k < Suc c \<and> int (peaks ! j) - int (peaks ! k) < d))"
      proof (cases "k = c")
        case True
        with IH k Suc.prems(4) \<open>int (peaks ! j) - int (peaks ! c) < d\<close> show ?thesis by simp
      next
        case False
        with IH k Suc.prems(4) show ?thesis by (auto simp: less_Suc_eq)
      qed
    qed
    with IH True show ?thesis by simp
  next
    case False
    have "\<forall>k < length peaks. \<not> (k < Suc c \<and> int (peaks ! j) - int (peaks ! k) < d)"
    proof (intro allI impI notI)
      fix k assume k: "k < length peaks" and a: "k < Suc c \<and> int (peaks ! j) - int (peaks ! k) < d"
      then have "k \<le> c" by simp
      have "c < length peaks" using Suc.prems(2,3) by linarith
      have "peaks ! k \<le> peaks ! c"
      proof (cases "k = c")
        case True
        then show ?thesis by simp
      next
        case False
        with \<open>k \<le> c\<close> have "k < c" by simp
        with Suc.prems(1) \<open>c < length peaks\<close> have "peaks ! k < peaks ! c"
          by (simp add: sorted_wrt_nth_less)
        then show ?thesis by simp
      qed
      with a False show False by linarith
    qed
    with False Suc.prems(4) show ?thesis by simp
  qed
qed

lemma clear_right_step:
  "k < length peaks \<Longrightarrow> int (peaks ! k) - int (peaks ! j) < d \<Longrightarrow>
   clear_right peaks d j k keep = clear_right peaks d j (k + 1) (keep[k := False])"
  by (subst clear_right.simps) simp

lemma clear_right_stop:
  "\<not> (k < length peaks \<and> int (peaks ! k) - int (peaks ! j) < d) \<Longrightarrow>
   clear_right peaks d j k keep = keep"
  by (subst clear_right.simps) auto

lemma clear_right_spec:
  "sorted_wrt (<) peaks \<Longrightarrow> length keep = length peaks \<Longrightarrow>
   length (clear_right peaks d j c keep) = length peaks
   \<and> (\<forall>k < length peaks. clear_right peaks d j c keep ! k =
         (keep ! k \<and> \<not> (c \<le> k \<and> int (peaks ! k) - int (peaks ! j) < d)))"
proof (induction peaks d j c keep rule: clear_right.induct)
  case (1 peaks d j c keep)
  show ?case
  proof (cases "c < length peaks \<and> int (peaks ! c) - int (peaks ! j) < d")
    case True
    then have eq: "clear_right peaks d j c keep = clear_right peaks d j (c + 1) (keep[c := False])"
      by (simp add: clear_right_step)
    have IH: "length (clear_right peaks d j (c + 1) (keep[c := False])) = length peaks
        \<and> (\<forall>k < length peaks. clear_right peaks d j (c + 1) (keep[c := False]) ! k =
              ((keep[c := False]) ! k \<and> \<not> (c + 1 \<le> k \<and> int (peaks ! k) - int (peaks ! j) < d)))"
      using "1.IH" [OF True "1.prems"(1)] "1.prems"(2) by simp
    have "\<forall>k < length peaks. clear_right peaks d j (c + 1) (keep[c := False]) ! k =
        (keep ! k \<and> \<not> (c \<le> k \<and> int (peaks ! k) - int (peaks ! j) < d))"
    proof (intro allI impI)
      fix k assume k: "k < length peaks"
      show "clear_right peaks d j (c + 1) (keep[c := False]) ! k =
          (keep ! k \<and> \<not> (c \<le> k \<and> int (peaks ! k) - int (peaks ! j) < d))"
      proof (cases "k = c")
        case True
        with IH k "1.prems"(2) \<open>c < length peaks \<and> int (peaks ! c) - int (peaks ! j) < d\<close>
        show ?thesis by simp
      next
        case False
        then have "(c + 1 \<le> k) = (c \<le> k)" by linarith
        with False IH k "1.prems"(2) show ?thesis by simp
      qed
    qed
    with IH show ?thesis unfolding eq by blast
  next
    case False
    then have eq: "clear_right peaks d j c keep = keep" by (rule clear_right_stop)
    have "\<forall>k < length peaks. \<not> (c \<le> k \<and> int (peaks ! k) - int (peaks ! j) < d)"
    proof (intro allI impI notI)
      fix k assume k: "k < length peaks" and a: "c \<le> k \<and> int (peaks ! k) - int (peaks ! j) < d"
      then have c: "c < length peaks" by linarith
      have "peaks ! c \<le> peaks ! k"
      proof (cases "k = c")
        case True
        then show ?thesis by simp
      next
        case False
        with a have "c < k" by simp
        with "1.prems"(1) k have "peaks ! c < peaks ! k"
          by (simp add: sorted_wrt_nth_less)
        then show ?thesis by simp
      qed
      with a False c show False by linarith
    qed
    then show ?thesis unfolding eq using "1.prems"(2) by simp
  qed
qed

lemma clear_both_spec:
  fixes d :: int
  assumes "sorted_wrt (<) peaks" "j < length peaks" "length keep = length peaks"
  defines "keep' \<equiv> clear_right peaks d j (j + 1) (clear_left peaks d j j keep)"
  shows "length keep' = length peaks"
    and "\<forall>k < length peaks. keep' ! k = (keep ! k \<and> \<not> near peaks d j k)"
proof -
  let ?l = "clear_left peaks d j j keep"
  have l: "length ?l = length peaks"
      "\<forall>k < length peaks. ?l ! k = (keep ! k \<and> \<not> (k < j \<and> int (peaks ! j) - int (peaks ! k) < d))"
    using clear_left_spec [OF assms(1,2) le_refl assms(3), of d] by blast+
  have r: "length keep' = length peaks"
      "\<forall>k < length peaks. keep' ! k = (?l ! k \<and> \<not> (j + 1 \<le> k \<and> int (peaks ! k) - int (peaks ! j) < d))"
    unfolding keep'_def using clear_right_spec [OF assms(1) l(1), of d j "j + 1"] by blast+
  show "length keep' = length peaks" by (rule r(1))
  show "\<forall>k < length peaks. keep' ! k = (keep ! k \<and> \<not> near peaks d j k)"
  proof (intro allI impI)
    fix k assume k: "k < length peaks"
    have kk: "keep' ! k = (keep ! k \<and> \<not> (k < j \<and> int (peaks ! j) - int (peaks ! k) < d)
        \<and> \<not> (j + 1 \<le> k \<and> int (peaks ! k) - int (peaks ! j) < d))"
      using l(2) r(2) k by simp
    consider "k < j" | "k = j" | "j < k" by linarith
    then show "keep' ! k = (keep ! k \<and> \<not> near peaks d j k)"
    proof cases
      case 1
      with assms(1,2) have "peaks ! k < peaks ! j" by (simp add: sorted_wrt_nth_less)
      with 1 kk show ?thesis by (auto simp: near_def)
    next
      case 2
      with kk show ?thesis by (simp add: near_def)
    next
      case 3
      with assms(1) k have "peaks ! j < peaks ! k" by (simp add: sorted_wrt_nth_less)
      with 3 kk show ?thesis by (auto simp: near_def)
    qed
  qed
qed

lemma select_loop_settled:
  "sorted_wrt (<) peaks \<Longrightarrow> length keep = length peaks \<Longrightarrow> \<forall>j \<in> set js. j < length peaks \<Longrightarrow>
   settled peaks d D keep \<Longrightarrow>
   length (select_loop peaks d js keep) = length peaks
   \<and> settled peaks d (D \<union> set js) (select_loop peaks d js keep)"
proof (induction js arbitrary: keep D)
  case Nil
  then show ?case by simp
next
  case (Cons j js)
  have j: "j < length peaks" using Cons.prems(3) by simp
  have js: "\<forall>j \<in> set js. j < length peaks" using Cons.prems(3) by simp
  show ?case
  proof (cases "keep ! j")
    case False
    then have "settled peaks d (D \<union> {j}) keep"
      using Cons.prems(4) by (auto simp: settled_def)
    from Cons.IH [OF Cons.prems(1,2) js this] False show ?thesis by simp
  next
    case True
    define keep' where "keep' = clear_right peaks d j (j + 1) (clear_left peaks d j j keep)"
    have k': "length keep' = length peaks"
        "\<forall>k < length peaks. keep' ! k = (keep ! k \<and> \<not> near peaks d j k)"
      unfolding keep'_def using clear_both_spec [OF Cons.prems(1) j Cons.prems(2)] by blast+
    have "settled peaks d (D \<union> {j}) keep'"
      unfolding settled_def
    proof (intro ballI impI allI)
      fix a k assume a: "a \<in> D \<union> {j}" "a < length peaks \<and> keep' ! a" "k < length peaks" "near peaks d a k"
      show "\<not> keep' ! k"
      proof (cases "a = j")
        case True
        with a k' show ?thesis by simp
      next
        case False
        with a have "a \<in> D" "keep ! a" using k' by auto
        with Cons.prems(4) a have "\<not> keep ! k" unfolding settled_def by blast
        with k' a show ?thesis by simp
      qed
    qed
    from Cons.IH [OF Cons.prems(1) k'(1) js this] True show ?thesis
      by (simp add: keep'_def)
  qed
qed

lemma set_argsort: "set (argsort priority) = {..<length priority}"
proof -
  have "map snd (zip priority [0..<length priority]) = [0..<length priority]"
    by (rule map_snd_zip) simp
  then have "snd ` set (zip priority [0..<length priority]) = set [0..<length priority]"
    by (metis set_map)
  then show ?thesis by (auto simp: argsort_def)
qed

lemma select_by_peak_distance_spec:
  fixes d :: int
  assumes "sorted_wrt (<) peaks" "length priority = length peaks"
  defines "keep \<equiv> select_by_peak_distance peaks priority d"
  shows "length keep = length peaks"
    and "\<forall>j < length peaks. \<forall>k < length peaks. keep ! j \<and> keep ! k \<and> j \<noteq> k \<longrightarrow>
           d \<le> \<bar>int (peaks ! k) - int (peaks ! j)\<bar>"
proof -
  have a: "\<forall>j \<in> set (rev (argsort priority)). j < length peaks"
    using assms(2) by (simp add: set_argsort)
  have b: "settled peaks d {} (replicate (length peaks) True)" by (simp add: settled_def)
  have "length keep = length peaks
      \<and> settled peaks d ({} \<union> set (rev (argsort priority))) keep"
    unfolding keep_def select_by_peak_distance_def
    using select_loop_settled [OF assms(1) _ a b] by simp
  then have l: "length keep = length peaks" and s: "settled peaks d {..<length peaks} keep"
    using assms(2) by (simp_all add: set_argsort)
  show "length keep = length peaks" by (rule l)
  show "\<forall>j < length peaks. \<forall>k < length peaks. keep ! j \<and> keep ! k \<and> j \<noteq> k \<longrightarrow>
           d \<le> \<bar>int (peaks ! k) - int (peaks ! j)\<bar>"
  proof (intro allI impI)
    fix j k assume j: "j < length peaks" and k: "k < length peaks"
      and a: "keep ! j \<and> keep ! k \<and> j \<noteq> k"
    have "j \<in> {..<length peaks}" using j by simp
    with s j a have "\<forall>k < length peaks. near peaks d j k \<longrightarrow> \<not> keep ! k"
      unfolding settled_def by blast
    with k a have "\<not> near peaks d j k" by blast
    with a show "d \<le> \<bar>int (peaks ! k) - int (peaks ! j)\<bar>"
      unfolding near_def by auto
  qed
qed

lemma select_mask_sorted_wrt:
  assumes "length keep = length xs"
      and "\<And>i j. i < j \<Longrightarrow> j < length xs \<Longrightarrow> keep ! i \<Longrightarrow> keep ! j \<Longrightarrow> R (xs ! i) (xs ! j)"
  shows "sorted_wrt R (select_mask xs keep)"
proof -
  let ?R' = "\<lambda>p q. snd p \<and> snd q \<longrightarrow> R (fst p) (fst q)"
  have "sorted_wrt ?R' (zip xs keep)"
    using assms by (auto simp: sorted_wrt_iff_nth_less)
  then have "sorted_wrt ?R' (filter snd (zip xs keep))"
    by (rule sorted_wrt_filter)
  then have "sorted_wrt (\<lambda>p q. R (fst p) (fst q)) (filter snd (zip xs keep))"
    by (rule sorted_wrt_mono_rel [rotated]) auto
  then show ?thesis by (simp add: select_mask_def sorted_wrt_map)
qed

lemma set_select_mask: "set (select_mask xs keep) \<subseteq> set xs"
  by (auto simp: select_mask_def dest: set_zip_leftD)

lemma increasing_sorted_wrt: "sorted_wrt (<) xs \<Longrightarrow> increasing xs"
  by (induction xs rule: increasing.induct) auto

lemma spaced_sorted_wrt: "sorted_wrt (\<lambda>a b. int a + d \<le> int b) xs \<Longrightarrow> spaced d xs"
  by (induction d xs rule: spaced.induct) auto

lemma find_peaks_spec:
  assumes "find_peaks x d h = Inr ps"
  shows "1 \<le> d" and "sorted_wrt (<) ps" and "sorted_wrt (\<lambda>a b. int a + d \<le> int b) ps"
    and "set ps \<subseteq> set (local_maxima_1d x)" and "\<forall>p \<in> set ps. h \<le> x ! p"
proof -
  define peaks where "peaks = filter (\<lambda>p. h \<le> x ! p) (local_maxima_1d x)"
  define keep where "keep = select_by_peak_distance peaks (map (\<lambda>p. x ! p) peaks) d"
  from assms show d: "1 \<le> d" by (auto simp: find_peaks_def split: if_splits)
  with assms have ps: "ps = select_mask peaks keep"
    by (simp add: find_peaks_def Let_def peaks_def keep_def)
  have sp: "sorted_wrt (<) peaks"
    unfolding peaks_def using local_maxima_1d_sorted by (rule sorted_wrt_filter)
  have k: "length keep = length peaks"
      "\<forall>j < length peaks. \<forall>k < length peaks. keep ! j \<and> keep ! k \<and> j \<noteq> k \<longrightarrow>
           d \<le> \<bar>int (peaks ! k) - int (peaks ! j)\<bar>"
    unfolding keep_def using select_by_peak_distance_spec [OF sp, of "map (\<lambda>p. x ! p) peaks" d]
    by simp_all
  have lt: "\<And>i j. i < j \<Longrightarrow> j < length peaks \<Longrightarrow> peaks ! i < peaks ! j"
    using sp by (simp add: sorted_wrt_nth_less)
  show "sorted_wrt (<) ps"
    unfolding ps using k(1) lt by (intro select_mask_sorted_wrt) auto
  show "sorted_wrt (\<lambda>a b. int a + d \<le> int b) ps"
    unfolding ps
  proof (rule select_mask_sorted_wrt [OF k(1)])
    fix i j assume a: "i < j" "j < length peaks" "keep ! i" "keep ! j"
    then have "d \<le> \<bar>int (peaks ! j) - int (peaks ! i)\<bar>" using k(2) by simp
    moreover have "peaks ! i < peaks ! j" using a lt by simp
    ultimately show "int (peaks ! i) + d \<le> int (peaks ! j)" by linarith
  qed
  have sub: "set ps \<subseteq> set peaks" unfolding ps by (rule set_select_mask)
  then show "set ps \<subseteq> set (local_maxima_1d x)" unfolding peaks_def by auto
  show "\<forall>p \<in> set ps. h \<le> x ! p" using sub unfolding peaks_def by auto
qed

lemma find_peaks_returns: "1 \<le> d \<Longrightarrow> \<exists>ps. find_peaks x d h = Inr ps"
  by (simp add: find_peaks_def Let_def)

lemma percentile_returns:
  "signal \<noteq> [] \<Longrightarrow> 0 \<le> q \<Longrightarrow> q \<le> 100 \<Longrightarrow> \<exists>h. percentile signal q = Inr h"
  by (simp add: percentile_def Let_def)

text \<open>
  Claim C4, as the code has it. Whenever \<^verbatim>\<open>identify_extrema\<close> returns, its first
  component is strictly increasing, and it is the sorted union of the maxima indices (the
  second component) and the minima indices, which have no index in common. The minimum
  distance holds within each kind: consecutive maxima indices are at least the configured
  distance apart, and so are consecutive minima indices. Between a maximum and a minimum
  only the strict increase is left. The function returns for every non-empty signal, a
  percentile in \<open>[0, 100]\<close> and a distance of at least \<open>1\<close>.
\<close>

theorem identify_extrema_separation:
  "(identify_extrema cfg signal = Inr (extrema_indices, maxima_indices) \<longrightarrow>
      increasing extrema_indices
      \<and> maxima_of cfg signal = Inr maxima_indices
      \<and> increasing maxima_indices
      \<and> spaced (min_distance cfg) maxima_indices
      \<and> (\<exists>minima_indices. minima_of cfg signal = Inr minima_indices
            \<and> increasing minima_indices
            \<and> spaced (min_distance cfg) minima_indices
            \<and> set maxima_indices \<inter> set minima_indices = {}
            \<and> extrema_indices = sort (maxima_indices @ minima_indices)))
   \<and> (signal \<noteq> [] \<and> 0 \<le> min_height_percentile cfg \<and> min_height_percentile cfg \<le> 100
        \<and> 1 \<le> min_distance cfg \<longrightarrow>
        (\<exists>r. identify_extrema cfg signal = Inr r))"
proof (rule conjI; rule impI)
  assume "identify_extrema cfg signal = Inr (extrema_indices, maxima_indices)"
  then obtain h minima_indices where
    h: "percentile (nan_to_num signal) (min_height_percentile cfg) = Inr h"
    and mx: "find_peaks (nan_to_num signal) (min_distance cfg) h = Inr maxima_indices"
    and mn: "find_peaks (map uminus (nan_to_num signal)) (min_distance cfg) h = Inr minima_indices"
    and ex: "extrema_indices = sort (maxima_indices @ minima_indices)"
    by (auto simp: identify_extrema_def Let_def split: sum.splits)
  note a = find_peaks_spec [OF mx]
  note b = find_peaks_spec [OF mn]
  have dis: "set maxima_indices \<inter> set minima_indices = {}"
    using a(4) b(4) maxima_minima_disjoint [of "nan_to_num signal"] by blast
  have "distinct maxima_indices" "distinct minima_indices"
    using a(2) b(2) by (simp_all add: strict_sorted_iff)
  with dis have "distinct (maxima_indices @ minima_indices)" by simp
  then have "sorted_wrt (<) extrema_indices"
    unfolding ex by (simp add: strict_sorted_iff)
  then have e: "increasing extrema_indices" by (rule increasing_sorted_wrt)
  have m: "maxima_of cfg signal = Inr maxima_indices" "minima_of cfg signal = Inr minima_indices"
    using h mx mn by (simp_all add: maxima_of_def minima_of_def)
  have i: "increasing maxima_indices" "increasing minima_indices"
    using a(2) b(2) by (simp_all add: increasing_sorted_wrt)
  have s: "spaced (min_distance cfg) maxima_indices" "spaced (min_distance cfg) minima_indices"
    using a(3) b(3) by (simp_all add: spaced_sorted_wrt)
  from e m i s dis ex show "increasing extrema_indices
      \<and> maxima_of cfg signal = Inr maxima_indices
      \<and> increasing maxima_indices
      \<and> spaced (min_distance cfg) maxima_indices
      \<and> (\<exists>minima_indices. minima_of cfg signal = Inr minima_indices
            \<and> increasing minima_indices
            \<and> spaced (min_distance cfg) minima_indices
            \<and> set maxima_indices \<inter> set minima_indices = {}
            \<and> extrema_indices = sort (maxima_indices @ minima_indices))"
    by blast
next
  assume a: "signal \<noteq> [] \<and> 0 \<le> min_height_percentile cfg \<and> min_height_percentile cfg \<le> 100
        \<and> 1 \<le> min_distance cfg"
  then have "nan_to_num signal \<noteq> []" by (simp add: nan_to_num_def)
  with a obtain h where h: "percentile (nan_to_num signal) (min_height_percentile cfg) = Inr h"
    using percentile_returns by blast
  from a obtain ps where ps: "find_peaks (nan_to_num signal) (min_distance cfg) h = Inr ps"
    using find_peaks_returns by blast
  from a obtain qs where
    qs: "find_peaks (map uminus (nan_to_num signal)) (min_distance cfg) h = Inr qs"
    using find_peaks_returns by blast
  show "\<exists>r. identify_extrema cfg signal = Inr r"
    by (simp add: identify_extrema_def Let_def h ps qs)
qed

theorem identify_extrema_separation_witness:
  "identify_extrema
      \<lparr>min_height_percentile = 50, min_distance = 4, auto_gating_threshold = 5, both_extrema = True\<rparr>
      [Fin 0, Fin 3, Fin 1, Fin 5, Fin 2, Fin 4, Fin (- 2), Fin 1, NaN, Fin 6, Fin (- 1), Fin 2, PInf] = Inr ([3, 6, 9, 10], [3, 9])
   \<and> increasing [3, 6, 9, 10] \<and> spaced 4 [3, 9]
   \<and> minima_of
      \<lparr>min_height_percentile = 50, min_distance = 4, auto_gating_threshold = 5, both_extrema = True\<rparr>
      [Fin 0, Fin 3, Fin 1, Fin 5, Fin 2, Fin 4, Fin (- 2), Fin 1, NaN, Fin 6, Fin (- 1), Fin 2, PInf] = Inr [6, 10]"
proof -
  let ?cfg = "\<lparr>min_height_percentile = 50, min_distance = 4, auto_gating_threshold = 5, both_extrema = True\<rparr>"
  let ?sig = "[Fin 0, Fin 3, Fin 1, Fin 5, Fin 2, Fin 4, Fin (- 2), Fin 1, NaN, Fin 6, Fin (- 1), Fin 2, PInf]"
  have r: "identify_extrema ?cfg ?sig = Inr ([3, 6, 9, 10], [3, 9])" by code_simp
  have m: "minima_of ?cfg ?sig = Inr [6, 10]" by code_simp
  from identify_extrema_separation [of ?cfg ?sig "[3, 6, 9, 10]" "[3, 9]"] r
  have "increasing [3, 6, 9, 10] \<and> spaced (min_distance ?cfg) [3, 9]" by blast
  with r m show ?thesis by simp
qed

text \<open>
  Claim C4 as stated fails: with the minimum distance \<open>5\<close>, the signal
  \<^verbatim>\<open>[0, 1, -1, 0, 0]\<close> has a maximum at \<open>1\<close> and a minimum at \<open>2\<close>. Each call of
  \<^verbatim>\<open>find_peaks\<close> sees one peak only, so the distance removes nothing, and the union
  \<open>[1, 2]\<close> has two consecutive indices that are \<open>1\<close> apart.
\<close>

theorem identify_extrema_union_counterexample:
  "identify_extrema
      \<lparr>min_height_percentile = 50, min_distance = 5, auto_gating_threshold = 5, both_extrema = True\<rparr>
      [Fin 0, Fin 1, Fin (- 1), Fin 0, Fin 0] = Inr ([1, 2], [1])
   \<and> \<not> spaced 5 [1, 2]"
  by code_simp

section \<open>Properties of automatic gating\<close>

lemma round_half_nearest:
  "\<bar>2 * round_half s - s\<bar> \<le> 1 \<and> (\<bar>2 * round_half s - s\<bar> = 1 \<longrightarrow> even (round_half s))"
proof (cases "even s")
  case True
  then show ?thesis by (auto simp: round_half_def)
next
  case False
  then have s: "s = 2 * (s div 2) + 1" by presburger
  show ?thesis
  proof (cases "even (s div 2)")
    case True
    with False s show ?thesis by (simp add: round_half_def)
  next
    case odd: False
    have "round_half s = s div 2 + 1" using False odd by (simp add: round_half_def Let_def)
    with odd s show ?thesis by simp
  qed
qed

lemma find_filter_hd:
  "find P xs = (if filter P xs = [] then None else Some (hd (filter P xs)))"
  by (induction xs) auto

lemma gating_loop_greedy:
  "fst (gating_loop threshold ms pool acc) =
     acc @ map (\<lambda>(m, e). round_half (m + e)) (greedy_pairs threshold ms pool)"
proof (induction ms arbitrary: pool acc)
  case Nil
  then show ?case by simp
next
  case (Cons m ms)
  show ?case
  proof (cases "filter (\<lambda>e. \<bar>m - e\<bar> \<le> threshold) pool = []")
    case True
    then have "find (\<lambda>e. \<bar>m - e\<bar> \<le> threshold) pool = None"
      by (simp add: find_filter_hd)
    with True Cons.IH show ?thesis by simp
  next
    case False
    then have "find (\<lambda>e. \<bar>m - e\<bar> \<le> threshold) pool =
        Some (hd (filter (\<lambda>e. \<bar>m - e\<bar> \<le> threshold) pool))"
      by (simp add: find_filter_hd)
    with False Cons.IH show ?thesis by (simp add: Let_def)
  qed
qed

lemma gating_loop_pool:
  "snd (gating_loop threshold ms pool acc) =
     fold remove1 (map snd (greedy_pairs threshold ms pool)) pool"
proof (induction ms arbitrary: pool acc)
  case Nil
  then show ?case by simp
next
  case (Cons m ms)
  show ?case
  proof (cases "filter (\<lambda>e. \<bar>m - e\<bar> \<le> threshold) pool = []")
    case True
    then have "find (\<lambda>e. \<bar>m - e\<bar> \<le> threshold) pool = None"
      by (simp add: find_filter_hd)
    with True Cons.IH show ?thesis by simp
  next
    case False
    then have "find (\<lambda>e. \<bar>m - e\<bar> \<le> threshold) pool =
        Some (hd (filter (\<lambda>e. \<bar>m - e\<bar> \<le> threshold) pool))"
      by (simp add: find_filter_hd)
    with False Cons.IH show ?thesis by (simp add: Let_def)
  qed
qed

lemma greedy_pairs_subseq: "subseq (map fst (greedy_pairs threshold ms pool)) ms"
  by (induction ms arbitrary: pool) (auto split: option.splits)

lemma greedy_pairs_mset: "mset (map snd (greedy_pairs threshold ms pool)) \<subseteq># mset pool"
proof (induction ms arbitrary: pool)
  case Nil
  then show ?case by simp
next
  case (Cons m ms)
  show ?case
  proof (cases "find (\<lambda>e. \<bar>m - e\<bar> \<le> threshold) pool")
    case None
    with Cons.IH show ?thesis by simp
  next
    case (Some e)
    then have mem: "e \<in> set pool" by (auto simp: find_Some_iff)
    have "mset (map snd (greedy_pairs threshold ms (remove1 e pool))) \<subseteq># mset pool - {#e#}"
      using Cons.IH [of "remove1 e pool"] by simp
    then have "add_mset e (mset (map snd (greedy_pairs threshold ms (remove1 e pool)))) \<subseteq># mset pool"
      using mem by (metis in_multiset_in_set insert_DiffM mset_subset_eq_add_mset_cancel)
    with Some show ?thesis by simp
  qed
qed

lemma greedy_pairs_close:
  "(m, e) \<in> set (greedy_pairs threshold ms pool) \<Longrightarrow>
   \<bar>m - e\<bar> \<le> threshold \<and> m \<in> set ms \<and> e \<in> set pool"
proof (induction ms arbitrary: pool)
  case Nil
  then show ?case by simp
next
  case (Cons a ms)
  show ?case
  proof (cases "find (\<lambda>e. \<bar>a - e\<bar> \<le> threshold) pool")
    case None
    with Cons show ?thesis by auto
  next
    case (Some c)
    then have c: "c \<in> set pool" "\<bar>a - c\<bar> \<le> threshold" by (auto simp: find_Some_iff)
    from Cons.prems Some have "(m, e) = (a, c) \<or> (m, e) \<in> set (greedy_pairs threshold ms (remove1 c pool))"
      by simp
    then show ?thesis
    proof
      assume "(m, e) = (a, c)"
      with c show ?thesis by simp
    next
      assume "(m, e) \<in> set (greedy_pairs threshold ms (remove1 c pool))"
      from Cons.IH [OF this] show ?thesis using set_remove1_subset [of c pool] by auto
    qed
  qed
qed

text \<open>
  Claim C1. The matching loop of automatic gating computes the first-match pairing:
  the maxima indices are taken in order, each takes the first extrema index still in the
  pool that lies within the threshold (the first in the order of the pool, whether or not
  a later one is nearer), the gated index is the rounded half of their sum, and the chosen
  extrema index leaves the pool. So the matched maxima form a subsequence of the maxima
  list, the matched extrema are used at most once each (as a multiset they are contained
  in the extrema list), every pair is within the threshold, and a maxima index with no
  extrema index within the threshold is in no pair. The rounding is to the nearest integer,
  a tie going to the even one.
\<close>

theorem gating_loop_first_match:
  "fst (gating_loop threshold maxima_indices extrema_indices []) =
     map (\<lambda>(m, e). round_half (m + e)) (greedy_pairs threshold maxima_indices extrema_indices)
   \<and> snd (gating_loop threshold maxima_indices extrema_indices []) =
       fold remove1 (map snd (greedy_pairs threshold maxima_indices extrema_indices)) extrema_indices
   \<and> subseq (map fst (greedy_pairs threshold maxima_indices extrema_indices)) maxima_indices
   \<and> mset (map snd (greedy_pairs threshold maxima_indices extrema_indices)) \<subseteq># mset extrema_indices
   \<and> (\<forall>(m, e) \<in> set (greedy_pairs threshold maxima_indices extrema_indices). \<bar>m - e\<bar> \<le> threshold)
   \<and> (\<forall>m \<in> set maxima_indices.
         (\<forall>e \<in> set extrema_indices. threshold < \<bar>m - e\<bar>) \<longrightarrow>
         m \<notin> fst ` set (greedy_pairs threshold maxima_indices extrema_indices))
   \<and> (\<forall>s. \<bar>2 * round_half s - s\<bar> \<le> 1 \<and> (\<bar>2 * round_half s - s\<bar> = 1 \<longrightarrow> even (round_half s)))"
proof -
  let ?ps = "greedy_pairs threshold maxima_indices extrema_indices"
  have a: "fst (gating_loop threshold maxima_indices extrema_indices []) =
      map (\<lambda>(m, e). round_half (m + e)) ?ps"
    by (simp add: gating_loop_greedy)
  have b: "snd (gating_loop threshold maxima_indices extrema_indices []) =
      fold remove1 (map snd ?ps) extrema_indices"
    by (rule gating_loop_pool)
  have c: "subseq (map fst ?ps) maxima_indices" by (rule greedy_pairs_subseq)
  have d: "mset (map snd ?ps) \<subseteq># mset extrema_indices" by (rule greedy_pairs_mset)
  have e: "\<forall>(m, e) \<in> set ?ps. \<bar>m - e\<bar> \<le> threshold"
    using greedy_pairs_close by blast
  have f: "\<forall>m \<in> set maxima_indices.
         (\<forall>e \<in> set extrema_indices. threshold < \<bar>m - e\<bar>) \<longrightarrow> m \<notin> fst ` set ?ps"
  proof (intro ballI impI notI)
    fix m assume far: "\<forall>e \<in> set extrema_indices. threshold < \<bar>m - e\<bar>" and "m \<in> fst ` set ?ps"
    then obtain e where "(m, e) \<in> set ?ps" by force
    from greedy_pairs_close [OF this] far show False by force
  qed
  have g: "\<forall>s. \<bar>2 * round_half s - s\<bar> \<le> 1 \<and> (\<bar>2 * round_half s - s\<bar> = 1 \<longrightarrow> even (round_half s))"
    using round_half_nearest by blast
  from a b c d e f g show ?thesis by blast
qed

theorem gating_loop_first_match_witness:
  "gating_loop 5 [10, 20, 30] [6, 10, 31, 29] [] = ([8, 30], [10, 29])
   \<and> greedy_pairs 5 [10, 20, 30] [6, 10, 31, 29] = [(10, 6), (30, 31)]
   \<and> 20 \<notin> fst ` set (greedy_pairs 5 [10, 20, 30] [6, 10, 31, 29])"
proof -
  have p: "greedy_pairs 5 [10, 20, 30] [6, 10, 31, 29] = [(10, 6), (30, 31)]"
    by simp
  have r: "round_half 16 = 8" "round_half 61 = 30"
    by (simp_all add: round_half_def)
  have far: "\<forall>e \<in> set [6, 10, 31, 29 :: int]. 5 < \<bar>20 - e\<bar>" by simp
  have "fst (gating_loop 5 [10, 20, 30] [6, 10, 31, 29] []) = [8, 30]
      \<and> snd (gating_loop 5 [10, 20, 30] [6, 10, 31, 29] []) = [10, 29]
      \<and> 20 \<notin> fst ` set (greedy_pairs 5 [10, 20, 30] [6, 10, 31, 29])"
    using gating_loop_first_match [of 5 "[10, 20, 30]" "[6, 10, 31, 29]"] far
    unfolding p by (simp add: r)
  then show ?thesis using p by (simp add: prod_eq_iff)
qed





lemma every_second_Cons: "every_second (x # xs) = x # every_second (tl xs)"
  by (cases xs) simp_all

lemma every_second_mset:
  "mset (every_second xs) + mset (every_second (tl xs)) = mset xs"
proof (induction xs)
  case Nil
  then show ?case by simp
next
  case (Cons x xs)
  have "mset (every_second (x # xs)) + mset (every_second (tl (x # xs))) =
      add_mset x (mset (every_second (tl xs)) + mset (every_second xs))"
    by (simp add: every_second_Cons)
  also have "\<dots> = add_mset x (mset xs)"
    using Cons.IH by (simp add: add.commute)
  finally show ?case by simp
qed

lemma every_second_set:
  "set (every_second xs) \<union> set (every_second (tl xs)) = set xs"
proof -
  have "set_mset (mset (every_second xs) + mset (every_second (tl xs))) = set_mset (mset xs)"
    by (simp only: every_second_mset)
  then show ?thesis by simp
qed

lemma every_second_disjoint:
  "distinct xs \<Longrightarrow> set (every_second xs) \<inter> set (every_second (tl xs)) = {}"
proof -
  assume "distinct xs"
  moreover have "mset (every_second xs @ every_second (tl xs)) = mset xs"
    by (simp add: every_second_mset)
  ultimately have "distinct (every_second xs @ every_second (tl xs))"
    by (metis mset_eq_imp_distinct_iff)
  then show ?thesis by simp
qed


lemma lumen_areas_Inl:
  "lumen_areas report_data frames = Inl e \<longleftrightarrow>
   e = IndexError \<and> (\<exists>f \<in> set frames. map_of report_data f = None)"
proof (induction frames)
  case Nil
  then show ?case by simp
next
  case (Cons f fs)
  show ?case
  proof (cases "map_of report_data f")
    case None
    then show ?thesis by (auto simp: lumen_area_def)
  next
    case (Some a)
    then show ?thesis using Cons.IH
      by (cases "lumen_areas report_data fs") (auto simp: lumen_area_def)
  qed
qed






text \<open>
  The two lists always split the gated list, position by position; they are disjoint as
  sets when no gated index occurs twice.
\<close>

lemma gate_indices_partition:
  assumes "gate_indices cfg report_data maxima_indices extrema_indices st = Inr st'"
      and "gated = fst (gating_loop (auto_gating_threshold cfg) maxima_indices extrema_indices [])"
  shows "mset (gated_frames_dia st') + mset (gated_frames_sys st') = mset gated"
    and "set (gated_frames_dia st') \<union> set (gated_frames_sys st') = set gated"
    and "distinct gated \<Longrightarrow> set (gated_frames_dia st') \<inter> set (gated_frames_sys st') = {}"
proof -
  from assms obtain areas_first areas_second where
    st': "st' = st\<lparr>gated_frames_dia :=
                     (if py_sum areas_first > py_sum areas_second then every_second gated
                      else every_second (tl gated)),
                   gated_frames_sys :=
                     (if py_sum areas_first > py_sum areas_second then every_second (tl gated)
                      else every_second gated),
                   phases := stamp ''S''
                     (if py_sum areas_first > py_sum areas_second then every_second (tl gated)
                      else every_second gated)
                     (stamp ''D''
                       (if py_sum areas_first > py_sum areas_second then every_second gated
                        else every_second (tl gated)) (phases st))\<rparr>"
    by (auto simp: gate_indices_def Let_def split: sum.splits)
  show "mset (gated_frames_dia st') + mset (gated_frames_sys st') = mset gated"
    using every_second_mset [of gated] by (simp add: st' add.commute)
  show "set (gated_frames_dia st') \<union> set (gated_frames_sys st') = set gated"
    using every_second_set [of gated] by (auto simp: st')
  show "distinct gated \<Longrightarrow> set (gated_frames_dia st') \<inter> set (gated_frames_sys st') = {}"
    using every_second_disjoint [of gated] by (auto simp: st')
qed

lemma gate_indices_logged:
  "gate_indices cfg report_data maxima_indices extrema_indices st = Inr st' \<Longrightarrow>
   logged st' = logged st"
  by (auto simp: gate_indices_def Let_def split: sum.splits)

lemma automatic_gating_logged:
  assumes "automatic_gating cfg report_data maxima_signal extrema_signal st = Inr st'"
  shows "length (logged st') = Suc (length (logged st))"
proof -
  define msg where "msg = (if both_extrema cfg then ''Extrema peak detection according to config.yaml''
                    else ''Maxima peak detection according to config.yaml'')"
  from assms obtain ms es where
    "gate_indices cfg report_data ms es (st\<lparr>logged := logged st @ [msg]\<rparr>) = Inr st'"
    unfolding automatic_gating_def Let_def msg_def [symmetric]
    by (auto split: sum.splits prod.splits)
  from gate_indices_logged [OF this] show ?thesis by simp
qed

text \<open>
  Claim C3 at a failing input. With both extrema enabled, the maxima signal
  \<^verbatim>\<open>[0, 1, -1, 0, 0]\<close> has its extrema at \<open>1\<close> and \<open>2\<close>, the extrema signal
  \<^verbatim>\<open>[0, 0, 1, -1, 0]\<close> at \<open>2\<close> and \<open>3\<close>; the matched pairs \<open>(1, 2)\<close> and \<open>(2, 3)\<close> have
  the averages \<open>1.5\<close> and \<open>2.5\<close>, which both round to \<open>2\<close>. The gated list is
  \<open>[2, 2]\<close>, and frame \<open>2\<close> ends up in the diastole list and in the systole list.
\<close>

theorem automatic_gating_shared_frame:
  "case automatic_gating
          \<lparr>min_height_percentile = 50, min_distance = 5, auto_gating_threshold = 5,
             both_extrema = True\<rparr>
          [(1, 4), (2, 3), (3, 5)] [Fin 0, Fin 1, Fin (- 1), Fin 0, Fin 0] [Fin 0, Fin 0, Fin 1, Fin (- 1), Fin 0]
          \<lparr>gated_frames_dia = [], gated_frames_sys = [], phases = Map.empty, logged = []\<rparr> of
     Inl e \<Rightarrow> False
   | Inr st' \<Rightarrow> gated_frames_dia st' = [2] \<and> gated_frames_sys st' = [2]
       \<and> set (gated_frames_dia st') \<inter> set (gated_frames_sys st') = {2}
       \<and> phases st' 2 = Some ''S''"
  by code_simp

text \<open>
  Claim C9. In \<^verbatim>\<open>plot_data\<close>, automatic gating runs if and only if the diastole list and
  the systole list are both empty. With a prior gating the session is returned as it is:
  the lists, the phase labels and the log are untouched. A run of automatic gating is
  never invisible (it logs a line, or it fails), so the session comes back unchanged exactly
  when a prior gating exists.
\<close>

theorem plot_data_gating_guard:
  "(gated_frames_dia st = [] \<and> gated_frames_sys st = [] \<longrightarrow>
      plot_data_gating cfg report_data signal_maxima signal_extrema st =
      automatic_gating cfg report_data signal_maxima signal_extrema st)
   \<and> (gated_frames_dia st \<noteq> [] \<or> gated_frames_sys st \<noteq> [] \<longrightarrow>
      plot_data_gating cfg report_data signal_maxima signal_extrema st = Inr st)
   \<and> automatic_gating cfg report_data signal_maxima signal_extrema st \<noteq> Inr st
   \<and> (plot_data_gating cfg report_data signal_maxima signal_extrema st = Inr st \<longleftrightarrow>
      gated_frames_dia st \<noteq> [] \<or> gated_frames_sys st \<noteq> [])"
proof -
  have ne: "automatic_gating cfg report_data signal_maxima signal_extrema st \<noteq> Inr st"
    using automatic_gating_logged [of cfg report_data signal_maxima signal_extrema st st] by auto
  then show ?thesis by (auto simp: plot_data_gating_def)
qed

theorem plot_data_gating_guard_witness:
  "plot_data_gating
      \<lparr>min_height_percentile = 50, min_distance = 5, auto_gating_threshold = 5, both_extrema = True\<rparr>
      [(1, 4), (2, 3), (3, 5)] [Fin 0, Fin 1, Fin (- 1), Fin 0, Fin 0] [Fin 0, Fin 0, Fin 1, Fin (- 1), Fin 0]
      \<lparr>gated_frames_dia = [], gated_frames_sys = [3], phases = [3 \<mapsto> ''S''], logged = []\<rparr>
    = Inr \<lparr>gated_frames_dia = [], gated_frames_sys = [3], phases = [3 \<mapsto> ''S''], logged = []\<rparr>
   \<and> plot_data_gating
      \<lparr>min_height_percentile = 50, min_distance = 5, auto_gating_threshold = 5, both_extrema = True\<rparr>
      [(1, 4), (2, 3), (3, 5)] [Fin 0, Fin 1, Fin (- 1), Fin 0, Fin 0] [Fin 0, Fin 0, Fin 1, Fin (- 1), Fin 0]
      \<lparr>gated_frames_dia = [], gated_frames_sys = [], phases = Map.empty, logged = []\<rparr>
    \<noteq> Inr \<lparr>gated_frames_dia = [], gated_frames_sys = [], phases = Map.empty, logged = []\<rparr>"
proof -
  let ?cfg = "\<lparr>min_height_percentile = 50, min_distance = 5, auto_gating_threshold = 5, both_extrema = True\<rparr>"
  let ?st1 = "\<lparr>gated_frames_dia = [], gated_frames_sys = [3], phases = [3 \<mapsto> ''S''], logged = []\<rparr>"
  let ?st0 = "\<lparr>gated_frames_dia = [], gated_frames_sys = [], phases = Map.empty, logged = []\<rparr>"
  have "plot_data_gating ?cfg [(1, 4), (2, 3), (3, 5)] [Fin 0, Fin 1, Fin (- 1), Fin 0, Fin 0] [Fin 0, Fin 0, Fin 1, Fin (- 1), Fin 0] ?st1 = Inr ?st1"
    using plot_data_gating_guard [of ?st1 ?cfg "[(1, 4), (2, 3), (3, 5)]" "[Fin 0, Fin 1, Fin (- 1), Fin 0, Fin 0]" "[Fin 0, Fin 0, Fin 1, Fin (- 1), Fin 0]"]
    by simp
  moreover have "plot_data_gating ?cfg [(1, 4), (2, 3), (3, 5)] [Fin 0, Fin 1, Fin (- 1), Fin 0, Fin 0] [Fin 0, Fin 0, Fin 1, Fin (- 1), Fin 0] ?st0 \<noteq> Inr ?st0"
    using plot_data_gating_guard [of ?st0 ?cfg "[(1, 4), (2, 3), (3, 5)]" "[Fin 0, Fin 1, Fin (- 1), Fin 0, Fin 0]" "[Fin 0, Fin 0, Fin 1, Fin (- 1), Fin 0]"]
    by simp
  ultimately show ?thesis by blast
qed

section \<open>Properties of the fusion weights and of the rescaling\<close>

text \<open>
  Claim C5 at a failing input. The composite maxima signal \<^verbatim>\<open>[8, 12]\<close> has mean \<open>10\<close>, the
  composite extrema signal \<^verbatim>\<open>[4, 6]\<close> has mean \<open>5\<close>, and the ratio is \<open>2\<close>. The ratio is
  not below \<open>1\<close>, so the code multiplies the maxima signal, the one with the larger mean,
  by \<open>2\<close> and leaves the extrema signal as it is: the means are \<open>20\<close> and \<open>5\<close> afterwards.
\<close>

theorem scale_signals_larger_mean_scaled_up:
  "fmean (map Fin [8, 12]) = Fin 10
   \<and> fmean (map Fin [4, 6]) = Fin 5
   \<and> factor_diff (map Fin [8, 12]) (map Fin [4, 6]) = Fin 2
   \<and> scale_signals (map Fin [8, 12]) (map Fin [4, 6]) = (map Fin [16, 24], map Fin [4, 6])
   \<and> fmean (map Fin [16, 24]) = Fin 20"
  by (simp add: scale_signals_def factor_diff_def fmean_def fsum_def)

lemma zero_variability_weight:
  "reciprocal (fdiv (Fin 0) s) = PInf \<or> reciprocal (fdiv (Fin 0) s) = NaN"
  by (cases s) (auto simp: reciprocal_def)

lemma fadd_not_finite: "\<not> is_finite a \<or> \<not> is_finite b \<Longrightarrow> \<not> is_finite (fadd a b)"
  by (cases a; cases b) auto

lemma fmul_not_finite: "\<not> is_finite w \<Longrightarrow> \<not> is_finite (fmul w x)"
  by (cases w; cases x) (auto simp: inf_times_def)

lemma add_weighted_length: "add_weighted acc w signal = Inr acc' \<Longrightarrow> length acc' = length acc"
  by (auto simp: add_weighted_def split: if_splits)

lemma add_weighted_keeps:
  "add_weighted acc w signal = Inr acc' \<Longrightarrow> \<forall>v \<in> set acc. \<not> is_finite v \<Longrightarrow>
   \<forall>v \<in> set acc'. \<not> is_finite v"
  by (auto simp: add_weighted_def fadd_not_finite split: if_splits dest!: set_zip_leftD)

lemma add_weighted_spoils:
  "add_weighted acc w signal = Inr acc' \<Longrightarrow> \<not> is_finite w \<Longrightarrow> \<forall>v \<in> set acc'. \<not> is_finite v"
  by (auto simp: add_weighted_def fadd_not_finite fmul_not_finite split: if_splits)

lemma weighted_loop_keeps:
  "weighted_loop acc ws signals = Inr r \<Longrightarrow> \<forall>v \<in> set acc. \<not> is_finite v \<Longrightarrow>
   \<forall>v \<in> set r. \<not> is_finite v"
proof (induction acc ws signals rule: weighted_loop.induct)
  case (1 acc weights)
  then show ?case by simp
next
  case (2 acc signal signals)
  then show ?case by simp
next
  case (3 acc w weights signal signals)
  from "3.prems"(1) obtain acc' where a: "add_weighted acc w signal = Inr acc'"
    and l: "weighted_loop acc' weights signals = Inr r"
    by (auto split: sum.splits)
  from add_weighted_keeps [OF a "3.prems"(2)] "3.IH" [OF a l] show ?case by blast
qed

lemma weighted_loop_spoils:
  "weighted_loop acc ws signals = Inr r \<Longrightarrow> i < length signals \<Longrightarrow> i < length ws \<Longrightarrow>
   \<not> is_finite (ws ! i) \<Longrightarrow> \<forall>v \<in> set r. \<not> is_finite v"
proof (induction acc ws signals arbitrary: i rule: weighted_loop.induct)
  case (1 acc weights)
  then show ?case by simp
next
  case (2 acc signal signals)
  then show ?case by simp
next
  case (3 acc w weights signal signals)
  from "3.prems"(1) obtain acc' where a: "add_weighted acc w signal = Inr acc'"
    and l: "weighted_loop acc' weights signals = Inr r"
    by (auto split: sum.splits)
  show ?case
  proof (cases i)
    case 0
    with "3.prems"(4) have "\<not> is_finite w" by simp
    from add_weighted_spoils [OF a this] weighted_loop_keeps [OF l] show ?thesis by blast
  next
    case (Suc j)
    with "3.prems" have "j < length signals" "j < length weights" "\<not> is_finite (weights ! j)"
      by simp_all
    from "3.IH" [OF a l this] show ?thesis .
  qed
qed

lemma weighted_loop_returns:
  "length ws = length signals \<Longrightarrow> \<forall>s \<in> set signals. length s = length acc \<Longrightarrow>
   \<exists>r. weighted_loop acc ws signals = Inr r \<and> length r = length acc"
proof (induction acc ws signals rule: weighted_loop.induct)
  case (1 acc weights)
  then show ?case by simp
next
  case (2 acc signal signals)
  then show ?case by simp
next
  case (3 acc w weights signal signals)
  define acc' where "acc' = map (\<lambda>(a, x). fadd a (fmul w x)) (zip acc signal)"
  have a: "add_weighted acc w signal = Inr acc'"
    using "3.prems"(2) by (simp add: add_weighted_def acc'_def)
  have len: "length acc' = length acc" using "3.prems"(2) by (simp add: acc'_def)
  have "\<exists>r. weighted_loop acc' weights signals = Inr r \<and> length r = length acc'"
    using "3.IH" [OF a] "3.prems" len by simp
  with a len show ?case by simp
qed

text \<open>
  The first component of \<^verbatim>\<open>combined_signal\<close> is the weighted sum of the filtered signals
  under the weights of the extrema found on the smoothed signals.
\<close>

lemma combined_signal_first:
  assumes "combined_signal cfg window_size nor signal_list maxima_only = Inr (combined, combined_nor)"
  shows "\<exists>extrema_indices.
           extrema_of_signals cfg window_size maxima_only signal_list = Inr extrema_indices
           \<and> combine_weighted extrema_indices signal_list = Inr combined"
  using assms by (auto simp: combined_signal_def split: sum.splits)

lemma extrema_of_signals_length:
  "extrema_of_signals cfg window_size maxima_only signal_list = Inr extrema_indices \<Longrightarrow>
   length extrema_indices = length signal_list"
  by (induction signal_list arbitrary: extrema_indices) (auto split: sum.splits)

text \<open>
  Claim C8, as the code has it. There is no fallback. When the extrema spacing of some
  signal has variability \<open>0\<close>, its weight \<^verbatim>\<open>(var / sum_variability) ** -1\<close> is
  \<open>+Inf\<close>, or NaN (when the variabilities sum to \<open>0\<close> or to NaN), and the weighted sum
  carries it on: for signals of one length, one list of extrema per signal, the composite
  signal is returned and every one of its entries is infinite or NaN.
\<close>

theorem combine_weighted_zero_variability:
  assumes "i < length signal_list"
      and "length extrema_indices = length signal_list"
      and "\<forall>s \<in> set signal_list. length s = length (hd signal_list)"
      and "variability_of (extrema_indices ! i) = Fin 0"
  shows "(weights_of (map variability_of extrema_indices) ! i = PInf
          \<or> weights_of (map variability_of extrema_indices) ! i = NaN)
     \<and> (\<exists>r. combine_weighted extrema_indices signal_list = Inr r
          \<and> length r = length (hd signal_list)
          \<and> (\<forall>v \<in> set r. \<not> is_finite v))"
proof -
  let ?ws = "weights_of (map variability_of extrema_indices)"
  have len: "length ?ws = length signal_list"
    using assms(2) by (simp add: weights_of_def Let_def)
  have wi: "?ws ! i = reciprocal (fdiv (Fin 0) (fsum (map variability_of extrema_indices)))"
    using assms(1,2,4) by (simp add: weights_of_def Let_def)
  then have w: "?ws ! i = PInf \<or> ?ws ! i = NaN"
    using zero_variability_weight by simp
  then have nf: "\<not> is_finite (?ws ! i)" by auto
  from assms(1) obtain first rest where sl: "signal_list = first # rest"
    by (cases signal_list) auto
  let ?acc = "replicate (length first) (Fin 0)"
  have cw: "combine_weighted extrema_indices signal_list = weighted_loop ?acc ?ws signal_list"
    by (simp add: combine_weighted_def sl)
  have "\<forall>s \<in> set signal_list. length s = length ?acc"
    using assms(3) sl by simp
  from weighted_loop_returns [OF len this] obtain r where
    r: "weighted_loop ?acc ?ws signal_list = Inr r" "length r = length ?acc" by blast
  have "\<forall>v \<in> set r. \<not> is_finite v"
    using weighted_loop_spoils [OF r(1) assms(1) _ nf] len assms(1) by simp
  with r cw sl w show ?thesis by simp
qed

theorem combine_weighted_zero_variability_witness:
  "variability_of [2, 4, 6] = Fin 0
   \<and> weights_of (map variability_of [[2, 4, 6], [1, 3, 7]]) ! 0 = PInf
   \<and> (\<exists>r. combine_weighted [[2, 4, 6], [1, 3, 7]] [[Fin 0, Fin 0, Fin 1, Fin 0, Fin 1, Fin 0, Fin 1, Fin 0, Fin 0], [Fin 0, Fin 1, Fin 0, Fin 1, Fin 0, Fin 0, Fin 0, Fin 1, Fin 0]] = Inr r
        \<and> length r = 9 \<and> (\<forall>v \<in> set r. \<not> is_finite v))"
proof -
  have v: "variability_of ([[2, 4, 6], [1, 3, 7]] ! 0) = Fin 0"
    by (simp add: variability_of_def np_std_def np_diff_def)
  have w: "weights_of (map variability_of [[2, 4, 6], [1, 3, 7]]) ! 0 = PInf"
    by (simp add: weights_of_def variability_of_def np_std_def np_diff_def fsum_def reciprocal_def)
  have "\<exists>r. combine_weighted [[2, 4, 6], [1, 3, 7]] [[Fin 0, Fin 0, Fin 1, Fin 0, Fin 1, Fin 0, Fin 1, Fin 0, Fin 0], [Fin 0, Fin 1, Fin 0, Fin 1, Fin 0, Fin 0, Fin 0, Fin 1, Fin 0]] = Inr r
        \<and> length r = length (hd [[Fin 0, Fin 0, Fin 1, Fin 0, Fin 1, Fin 0, Fin 1, Fin 0, Fin 0], [Fin 0, Fin 1, Fin 0, Fin 1, Fin 0, Fin 0, Fin 0, Fin 1, Fin 0]]) \<and> (\<forall>v \<in> set r. \<not> is_finite v)"
    using combine_weighted_zero_variability [of 0 "[[Fin 0, Fin 0, Fin 1, Fin 0, Fin 1, Fin 0, Fin 1, Fin 0, Fin 0], [Fin 0, Fin 1, Fin 0, Fin 1, Fin 0, Fin 0, Fin 0, Fin 1, Fin 0]]" "[[2, 4, 6], [1, 3, 7]]"] v
    by simp
  then show ?thesis using v w by (simp add: eval_nat_numeral)
qed

text \<open>
  Claim C8 as stated fails. With the window size \<open>1\<close>, the percentile \<open>50\<close> and the
  minimum distance \<open>1\<close>, the signal \<^verbatim>\<open>[0, 0, 1, 0, 1, 0, 1, 0, 0]\<close> has its maxima at
  \<open>2, 4, 6\<close> (variability \<open>0\<close>) and the signal \<^verbatim>\<open>[0, 1, 0, 1, 0, 0, 0, 1, 0]\<close> at
  \<open>1, 3, 7\<close> (variability \<open>1\<close>). The weights are \<open>+Inf\<close> and \<open>1\<close>, and every entry of
  the composite signal is NaN or \<open>+Inf\<close>.
\<close>

theorem combined_signal_no_fallback_counterexample:
  "extrema_of_signals
      \<lparr>min_height_percentile = 50, min_distance = 1, auto_gating_threshold = 5, both_extrema = False\<rparr>
      1 True [[Fin 0, Fin 0, Fin 1, Fin 0, Fin 1, Fin 0, Fin 1, Fin 0, Fin 0], [Fin 0, Fin 1, Fin 0, Fin 1, Fin 0, Fin 0, Fin 0, Fin 1, Fin 0]] = Inr [[2, 4, 6], [1, 3, 7]]
   \<and> weights_of (map variability_of [[2, 4, 6], [1, 3, 7]]) = [PInf, Fin 1]
   \<and> (case combined_signal
          \<lparr>min_height_percentile = 50, min_distance = 1, auto_gating_threshold = 5, both_extrema = False\<rparr>
          1
          \<lparr>correlation_nor = [Fin 0, Fin 0, Fin 1, Fin 0, Fin 1, Fin 0, Fin 1, Fin 0, Fin 0], blurring_nor = [Fin 0, Fin 1, Fin 0, Fin 1, Fin 0, Fin 0, Fin 0, Fin 1, Fin 0], shortest_distance_nor = [],
             vector_angle_nor = [], vector_length_nor = []\<rparr>
          [[Fin 0, Fin 0, Fin 1, Fin 0, Fin 1, Fin 0, Fin 1, Fin 0, Fin 0], [Fin 0, Fin 1, Fin 0, Fin 1, Fin 0, Fin 0, Fin 0, Fin 1, Fin 0]] True of
        Inl e \<Rightarrow> False
      | Inr (combined, combined_nor) \<Rightarrow>
          combined = [NaN, NaN, PInf, NaN, PInf, NaN, PInf, NaN, NaN])"
proof -
  let ?cfg = "\<lparr>min_height_percentile = 50, min_distance = 1, auto_gating_threshold = 5, both_extrema = False\<rparr>"
  have e: "extrema_of_signals ?cfg 1 True [[Fin 0, Fin 0, Fin 1, Fin 0, Fin 1, Fin 0, Fin 1, Fin 0, Fin 0], [Fin 0, Fin 1, Fin 0, Fin 1, Fin 0, Fin 0, Fin 0, Fin 1, Fin 0]] = Inr [[2, 4, 6], [1, 3, 7]]"
    by code_simp
  have w: "weights_of (map variability_of [[2, 4, 6], [1, 3, 7]]) = [PInf, Fin 1]"
    by (simp add: weights_of_def variability_of_def np_std_def np_diff_def fsum_def reciprocal_def)
  have c: "weighted_loop [Fin 0, Fin 0, Fin 0, Fin 0, Fin 0, Fin 0, Fin 0, Fin 0, Fin 0] [PInf, Fin 1] [[Fin 0, Fin 0, Fin 1, Fin 0, Fin 1, Fin 0, Fin 1, Fin 0, Fin 0], [Fin 0, Fin 1, Fin 0, Fin 1, Fin 0, Fin 0, Fin 0, Fin 1, Fin 0]] =
      Inr [NaN, NaN, PInf, NaN, PInf, NaN, PInf, NaN, NaN]"
    by code_simp
  have "combine_weighted [[2, 4, 6], [1, 3, 7]] [[Fin 0, Fin 0, Fin 1, Fin 0, Fin 1, Fin 0, Fin 1, Fin 0, Fin 0], [Fin 0, Fin 1, Fin 0, Fin 1, Fin 0, Fin 0, Fin 0, Fin 1, Fin 0]] =
      Inr [NaN, NaN, PInf, NaN, PInf, NaN, PInf, NaN, NaN]"
    unfolding combine_weighted_def w using c by simp
  moreover have "\<exists>r. weighted_loop [Fin 0, Fin 0, Fin 0, Fin 0, Fin 0, Fin 0, Fin 0, Fin 0, Fin 0] [PInf, Fin 1] [[Fin 0, Fin 0, Fin 1, Fin 0, Fin 1, Fin 0, Fin 1, Fin 0, Fin 0], [Fin 0, Fin 1, Fin 0, Fin 1, Fin 0, Fin 0, Fin 0, Fin 1, Fin 0]] = Inr r"
    using c by simp
  moreover have "weights_of [variability_of [2, 4, 6], variability_of [1, 3, 7]] = [PInf, Fin 1]"
    using w by simp
  ultimately show ?thesis
    unfolding combined_signal_def e using c w by simp
qed

end
